theory Spec2Isabelle
  imports Complex_Main "HOL-Library.Word"
begin

section \<open>Values shared by the whole server\<close>

text \<open>
  Errors are values.  A failed shell command of the \<open>bun\<close> shell throws an object that
  carries the captured \<open>stdout\<close> and \<open>stderr\<close>; every other thrown value (a
  \<open>TypeError\<close>, a file-system error) has neither property.
\<close>

datatype jsError =
    ShellError string string
  | JsError string

text \<open>
  The numbers the handler computes for episode and map are small integers or \<open>NaN\<close>
  (\<open>Math.min\<close> and \<open>Math.max\<close> of a character that is not a digit).
\<close>

datatype jsnum = NaN | Num int

type_synonym int8 = "8 word"

text \<open>Storing a number into an \<open>Int8Array\<close> wraps it modulo 256; \<open>NaN\<close> is stored as 0.\<close>

fun toInt8 :: "jsnum \<Rightarrow> int8" where
  "toInt8 NaN = 0"
| "toInt8 (Num n) = word_of_int n"

section \<open>forgeDemo: the demo (LMP) encoder\<close>

definition INPUT_DURATION :: nat where
  "INPUT_DURATION = 15"

text \<open>\<open>inputs.replaceAll("e", "eee")\<close>\<close>

definition replaceAll_e :: "string \<Rightarrow> string" where
  "replaceAll_e inputs = concat (map (\<lambda>c. if c = CHR ''e'' then ''eee'' else [c]) inputs)"

text \<open>
  The \<open>switch\<close> of the source: the tic of one input character.  In the \<open>default\<close>
  branch the variable \<open>tic\<close> stays \<open>undefined\<close>, which is \<open>None\<close> here.
\<close>

definition tic_of :: "char \<Rightarrow> int8 list option" where
  "tic_of c =
     (if c = CHR ''w'' then Some [50, 0, 0, 0]
      else if c = CHR ''s'' then Some [- 50, 0, 0, 0]
      else if c = CHR ''a'' then Some [0, 0, 1, 0]
      else if c = CHR ''d'' then Some [0, 0, - 1, 0]
      else if c = CHR ''q'' then Some [0, 0, 0, 1]
      else if c = CHR ''e'' then Some [0, 0, 0, 2]
      else None)"

text \<open>
  \<open>buffer.set(tic, offset)\<close>: a \<open>TypeError\<close> when the source is \<open>undefined\<close>, a
  \<open>RangeError\<close> when the source does not fit, otherwise the bytes are copied in place.
\<close>

definition buffer_set :: "int8 list \<Rightarrow> int8 list option \<Rightarrow> nat \<Rightarrow> jsError + int8 list" where
  "buffer_set buffer src offset =
     (case src of
        None \<Rightarrow> Inl (JsError ''TypeError'')
      | Some tic \<Rightarrow>
          if length buffer < offset + length tic then Inl (JsError ''RangeError'')
          else Inr (take offset buffer @ tic @ drop (offset + length tic) buffer))"

text \<open>The inner loop \<open>for (let j = 0; j < INPUT_DURATION; j ++)\<close>, over the values of \<open>j\<close>.\<close>

fun tic_loop :: "int8 list option \<Rightarrow> nat \<Rightarrow> nat list \<Rightarrow> int8 list \<Rightarrow> jsError + int8 list" where
  "tic_loop tic i [] buffer = Inr buffer"
| "tic_loop tic i (j # js) buffer =
     (case buffer_set buffer tic (13 + i * INPUT_DURATION * 4 + j * 4) of
        Inl e \<Rightarrow> Inl e
      | Inr buffer' \<Rightarrow> tic_loop tic i js buffer')"

text \<open>The outer loop \<open>for (let i = 0; i < inputs.length; i ++)\<close>, over the values of \<open>i\<close>.\<close>

fun input_loop :: "string \<Rightarrow> nat list \<Rightarrow> int8 list \<Rightarrow> jsError + int8 list" where
  "input_loop inputs [] buffer = Inr buffer"
| "input_loop inputs (i # is) buffer =
     (case tic_loop (tic_of (inputs ! i)) i [0..<INPUT_DURATION] buffer of
        Inl e \<Rightarrow> Inl e
      | Inr buffer' \<Rightarrow> input_loop inputs is buffer')"

definition forgeDemo :: "string \<Rightarrow> jsnum \<Rightarrow> jsnum \<Rightarrow> jsError + int8 list" where
  "forgeDemo inputs0 episode map' =
     (let inputs = replaceAll_e inputs0;
          buffer = replicate (14 + length inputs * INPUT_DURATION * 4) (0 :: int8);
          buffer = buffer[0 := 109];
          buffer = buffer[1 := 0];
          buffer = buffer[2 := toInt8 episode];
          buffer = buffer[3 := toInt8 map'];
          buffer = buffer[4 := 0];
          buffer = buffer[5 := 0];
          buffer = buffer[6 := 0];
          buffer = buffer[7 := 0];
          buffer = buffer[8 := 0];
          buffer = buffer[9 := 1];
          buffer = buffer[10 := 0];
          buffer = buffer[11 := 0];
          buffer = buffer[12 := 0];
          buffer = buffer[length buffer - 1 := 0x80]
      in input_loop inputs [0..<length inputs] buffer)"

text \<open>
  What the encoder is meant to produce, written as one expression: the header, fifteen
  copies of the tic of every character of the expanded input, and the end byte.
\<close>

definition lmp_header :: "jsnum \<Rightarrow> jsnum \<Rightarrow> int8 list" where
  "lmp_header episode map' = [109, 0, toInt8 episode, toInt8 map', 0, 0, 0, 0, 0, 1, 0, 0, 0]"

definition lmp_tics :: "string \<Rightarrow> int8 list" where
  "lmp_tics inputs = concat (map (\<lambda>c. concat (replicate INPUT_DURATION (the (tic_of c)))) inputs)"

definition lmp_layout :: "string \<Rightarrow> jsnum \<Rightarrow> jsnum \<Rightarrow> int8 list" where
  "lmp_layout inputs episode map' = lmp_header episode map' @ lmp_tics (replaceAll_e inputs) @ [0x80]"

text \<open>
  The fields of one tic as the spec names them: forward/back delta, turn delta and action
  bitmask of a token (bit 0 fires, bit 1 uses).
\<close>

definition forwardmove :: "char \<Rightarrow> int8" where
  "forwardmove c = (if c = CHR ''w'' then 50 else if c = CHR ''s'' then - 50 else 0)"

definition angleturn :: "char \<Rightarrow> int8" where
  "angleturn c = (if c = CHR ''a'' then 1 else if c = CHR ''d'' then - 1 else 0)"

definition buttons :: "char \<Rightarrow> int8" where
  "buttons c = (if c = CHR ''q'' then 1 else if c = CHR ''e'' then 2 else 0)"

section \<open>clearOldCache: eviction under disk pressure\<close>

text \<open>
  Remaining disk space, in bytes: the cache is cleared once the free space is under the
  high threshold, and clearing goes on until the low threshold is free again.
\<close>

definition CACHE_CLEAR_HIGH_THRESHOLD :: int where
  "CACHE_CLEAR_HIGH_THRESHOLD = 1024 * 1024 * 1024"

definition CACHE_CLEAR_LOW_THRESHOLD :: int where
  "CACHE_CLEAR_LOW_THRESHOLD = 1024 * 1024 * 1024 * 2"

text \<open>Sequences up to this length (inclusive) will not be touched.\<close>

definition CACHE_DEPTH_THRESHOLD :: nat where
  "CACHE_DEPTH_THRESHOLD = 5"

text \<open>
  What \<open>fs.readdir\<close> with \<open>withFileTypes\<close> returns for one child of the cache directory.
\<close>

record dirent =
  name :: string
  isDirectory :: bool

text \<open>
  The disk as \<open>clearOldCache\<close> sees it.  Every call may throw, so every call answers
  with an error or a value:
  \<^item> \<open>checkSync p k\<close> is the \<open>k\<close>-th call of \<open>diskusage.checkSync(p)\<close> during one run
    (the free space changes between calls), giving \<open>info.free\<close>;
  \<^item> \<open>readdir p\<close> lists the children of \<open>p\<close>;
  \<^item> \<open>stat p\<close> gives \<open>birthtimeMs\<close>, a finite double, read here as the rational it denotes
    (only the order of creation times is used);
  \<^item> \<open>rm p\<close> is \<open>fs.rm(p, { recursive: true, force: true })\<close>: \<open>None\<close> when it returns.
\<close>

record disk =
  checkSync :: "string \<Rightarrow> nat \<Rightarrow> jsError + int"
  readdir :: "string \<Rightarrow> jsError + dirent list"
  stat :: "string \<Rightarrow> jsError + rat"
  rm :: "string \<Rightarrow> jsError option"

text \<open>The elements of the array \<open>dirs\<close>.\<close>

record dirinfo =
  fullPath :: string
  birthtime :: rat

text \<open>
  The state of one run: how many times the disk was probed, the last \<open>info.free\<close> read,
  and every call of \<open>fs.rm\<close> in order, with \<open>True\<close> when the call returned and
  \<open>False\<close> when it threw (and the directory stayed).
\<close>

record eviction =
  probes :: nat
  free :: int
  rm_log :: "(dirinfo \<times> bool) list"

text \<open>
  The loop over \<open>entries\<close>: directories whose name is longer than the depth threshold
  plus the two digits of episode and map, and whose \<open>stat\<close> did not throw.
\<close>

fun scan_entries :: "disk \<Rightarrow> string \<Rightarrow> dirent list \<Rightarrow> dirinfo list" where
  "scan_entries d parentDir [] = []"
| "scan_entries d parentDir (entry # entries) =
     (if isDirectory entry \<and> length (name entry) > CACHE_DEPTH_THRESHOLD + 2 then
        (case stat d (parentDir @ ''/'' @ name entry) of
           Inr birthtimeMs \<Rightarrow>
             \<lparr>fullPath = parentDir @ ''/'' @ name entry, birthtime = birthtimeMs\<rparr>
               # scan_entries d parentDir entries
         | Inl e \<Rightarrow> scan_entries d parentDir entries)
      else scan_entries d parentDir entries)"

text \<open>
  One round of the \<open>while\<close> loop, for the directory \<open>dirs.shift()\<close> returned: the new
  state, and whether the round ended in \<open>break\<close>.  An error of \<open>fs.rm\<close> or of the probe
  is caught and the loop goes on.
\<close>

definition delete_oldest :: "disk \<Rightarrow> string \<Rightarrow> dirinfo \<Rightarrow> eviction \<Rightarrow> eviction \<times> bool" where
  "delete_oldest d parentDir oldest s =
     (case rm d (fullPath oldest) of
        Some e \<Rightarrow> (s\<lparr>rm_log := rm_log s @ [(oldest, False)]\<rparr>, False)
      | None \<Rightarrow>
          (case checkSync d parentDir (probes s) of
             Inl e \<Rightarrow> (s\<lparr>probes := Suc (probes s), rm_log := rm_log s @ [(oldest, True)]\<rparr>, False)
           | Inr free' \<Rightarrow>
               (s\<lparr>probes := Suc (probes s), free := free', rm_log := rm_log s @ [(oldest, True)]\<rparr>,
                free' > CACHE_CLEAR_LOW_THRESHOLD)))"

fun delete_loop :: "disk \<Rightarrow> string \<Rightarrow> dirinfo list \<Rightarrow> eviction \<Rightarrow> eviction" where
  "delete_loop d parentDir [] s = s"
| "delete_loop d parentDir (oldest # dirs) s =
     (case delete_oldest d parentDir oldest s of
        (s', break) \<Rightarrow> if break then s' else delete_loop d parentDir dirs s')"

text \<open>
  The first probe and \<open>fs.readdir\<close> stand outside every \<open>try\<close>: their errors leave the
  function.  \<open>dirs.sort\<close> with the comparator \<open>a.birthtime - b.birthtime\<close> is a stable
  sort on the creation time.
\<close>

definition clearOldCache :: "disk \<Rightarrow> string \<Rightarrow> jsError + eviction" where
  "clearOldCache d parentDir =
     (case checkSync d parentDir 0 of
        Inl e \<Rightarrow> Inl e
      | Inr free0 \<Rightarrow>
          if free0 > CACHE_CLEAR_HIGH_THRESHOLD
          then Inr \<lparr>probes = 1, free = free0, rm_log = []\<rparr>
          else
            (case readdir d parentDir of
               Inl e \<Rightarrow> Inl e
             | Inr entries \<Rightarrow>
                 (let dirs = scan_entries d parentDir entries in
                  if length dirs = 0
                  then Inr \<lparr>probes = 1, free = free0, rm_log = []\<rparr>
                  else Inr (delete_loop d parentDir (sort_key birthtime dirs)
                              \<lparr>probes = 1, free = free0, rm_log = []\<rparr>))))"

text \<open>The paths handed to \<open>fs.rm\<close> during one call of \<open>clearOldCache\<close>, in order.\<close>

definition rm_calls :: "disk \<Rightarrow> string \<Rightarrow> string list" where
  "rm_calls d parentDir =
     (case clearOldCache d parentDir of
        Inl e \<Rightarrow> []
      | Inr s \<Rightarrow> map (fullPath \<circ> fst) (rm_log s))"

subsection \<open>Concrete disks\<close>

text \<open>
  900 MB free, a cache with an entry of depth 3 and one of depth 8, and 3 GB free once
  something was removed.
\<close>

definition pressure_disk :: disk where
  "pressure_disk =
     \<lparr>checkSync = (\<lambda>p k. if k = 0 then Inr (900 * 1024 * 1024) else Inr (3 * 1024 * 1024 * 1024)),
      readdir = (\<lambda>p. Inr [\<lparr>name = ''11www'', isDirectory = True\<rparr>,
                          \<lparr>name = ''11wwwwwwww'', isDirectory = True\<rparr>]),
      stat = (\<lambda>p. Inr 1),
      rm = (\<lambda>p. None)\<rparr>"


text \<open>A cache directory that \<open>diskusage.checkSync\<close> cannot probe.\<close>

definition probe_throws_disk :: disk where
  "probe_throws_disk =
     \<lparr>checkSync = (\<lambda>p k. Inl (JsError ''ENOENT'')),
      readdir = (\<lambda>p. Inr []),
      stat = (\<lambda>p. Inr 1),
      rm = (\<lambda>p. None)\<rparr>"

text \<open>A cache directory that cannot be listed.\<close>

definition readdir_throws_disk :: disk where
  "readdir_throws_disk =
     \<lparr>checkSync = (\<lambda>p k. Inr (900 * 1024 * 1024)),
      readdir = (\<lambda>p. Inl (JsError ''EMFILE'')),
      stat = (\<lambda>p. Inr 1),
      rm = (\<lambda>p. None)\<rparr>"

text \<open>5 GB free: no pressure.\<close>

definition roomy_disk :: disk where
  "roomy_disk =
     \<lparr>checkSync = (\<lambda>p k. Inr (5 * 1024 * 1024 * 1024)),
      readdir = (\<lambda>p. Inr [\<lparr>name = ''11www'', isDirectory = True\<rparr>,
                          \<lparr>name = ''11wwwwwwww'', isDirectory = True\<rparr>]),
      stat = (\<lambda>p. Inr 1),
      rm = (\<lambda>p. None)\<rparr>"


section \<open>handleRequest: the request handler\<close>

subsection \<open>Strings and numbers of the source language\<close>

text \<open>
  \<open>startsWith\<close>, \<open>endsWith\<close>, \<open>includes\<close>, \<open>toLowerCase\<close> and \<open>slice\<close> with
  non-negative bounds.  A path is the \<open>pathname\<close> of a URL: it is ASCII, so lower-casing
  only touches \<open>A\<close> to \<open>Z\<close>.
\<close>

fun startsWith :: "string \<Rightarrow> string \<Rightarrow> bool" where
  "startsWith s [] = True"
| "startsWith [] (c # cs) = False"
| "startsWith (x # xs) (c # cs) = (x = c \<and> startsWith xs cs)"

definition endsWith :: "string \<Rightarrow> string \<Rightarrow> bool" where
  "endsWith s suffix = startsWith (rev s) (rev suffix)"

fun str_includes :: "string \<Rightarrow> string \<Rightarrow> bool" where
  "str_includes [] sub = (sub = [])"
| "str_includes (x # xs) sub = (startsWith (x # xs) sub \<or> str_includes xs sub)"

definition toLowerCase :: "string \<Rightarrow> string" where
  "toLowerCase s =
     map (\<lambda>c. case map_of (zip ''ABCDEFGHIJKLMNOPQRSTUVWXYZ'' ''abcdefghijklmnopqrstuvwxyz'') c of
                 None \<Rightarrow> c | Some l \<Rightarrow> l) s"

definition slice :: "string \<Rightarrow> nat \<Rightarrow> nat \<Rightarrow> string" where
  "slice s start end' = take (end' - start) (drop start s)"

definition digit_value :: "char \<Rightarrow> int option" where
  "digit_value c = map_of (zip ''0123456789'' [0, 1, 2, 3, 4, 5, 6, 7, 8, 9]) c"

definition isDigit :: "char \<Rightarrow> bool" where
  "isDigit c = (digit_value c \<noteq> None)"

definition isWhiteSpace :: "char \<Rightarrow> bool" where
  "isWhiteSpace c = (c \<in> set [CHR 0x09, CHR 0x0A, CHR 0x0B, CHR 0x0C, CHR 0x0D, CHR '' '', CHR 0xA0])"

definition trim :: "string \<Rightarrow> string" where
  "trim s = dropWhile isWhiteSpace (rev (dropWhile isWhiteSpace (rev s)))"

text \<open>
  \<open>isNaN(s)\<close> for a string \<open>s\<close> of at most two characters, which is all the handler asks
  (\<open>inputs.slice(0, 2)\<close>).  The string is converted to a number first: white space is
  trimmed; the empty string is 0; what remains is a number exactly when it is a decimal
  literal, and with at most two characters those are \<open>d\<close>, \<open>dd\<close>, \<open>d.\<close>, \<open>.d\<close>, \<open>+d\<close>
  and \<open>-d\<close> for digits \<open>d\<close> (an exponent, a hexadecimal prefix and \<open>Infinity\<close> need more
  characters).
\<close>

definition isNaN_short :: "string \<Rightarrow> bool" where
  "isNaN_short s =
     (case trim s of
        [] \<Rightarrow> False
      | [c] \<Rightarrow> \<not> isDigit c
      | [c1, c2] \<Rightarrow>
          \<not> (isDigit c1 \<and> isDigit c2
             \<or> isDigit c1 \<and> c2 = CHR ''.''
             \<or> c1 \<in> set ''.+-'' \<and> isDigit c2)
      | _ \<Rightarrow> True)"

text \<open>
  The number that \<open>Math.min\<close> makes of \<open>inputs[i]\<close>: \<open>undefined\<close> (no such character) is
  \<open>NaN\<close>, a digit is its value, a white-space character is 0, anything else is \<open>NaN\<close>.
\<close>

definition charToNumber :: "string \<Rightarrow> nat \<Rightarrow> jsnum" where
  "charToNumber s i =
     (if i < length s then
        (case digit_value (s ! i) of
           Some v \<Rightarrow> Num v
         | None \<Rightarrow> if isWhiteSpace (s ! i) then Num 0 else NaN)
      else NaN)"

fun Math_min :: "jsnum \<Rightarrow> jsnum \<Rightarrow> jsnum" where
  "Math_min (Num a) (Num b) = Num (min a b)"
| "Math_min _ _ = NaN"

fun Math_max :: "jsnum \<Rightarrow> jsnum \<Rightarrow> jsnum" where
  "Math_max (Num a) (Num b) = Num (max a b)"
| "Math_max _ _ = NaN"

text \<open>A number inside a template literal.\<close>

fun digits_of :: "nat \<Rightarrow> string" where
  "digits_of n =
     (if n < 10 then [''0123456789'' ! n]
      else digits_of (n div 10) @ [''0123456789'' ! (n mod 10)])"

declare digits_of.simps [simp del]

fun numberToString :: "jsnum \<Rightarrow> string" where
  "numberToString NaN = ''NaN''"
| "numberToString (Num n) = (if n < 0 then ''-'' @ digits_of (nat (- n)) else digits_of (nat n))"

subsection \<open>Responses\<close>

text \<open>
  A response body is a text or a file served by path; \<open>new Response(body)\<close> without a
  status has status 200 and no headers of its own.
\<close>

datatype body = Text string | File string

record response =
  body :: body
  status :: nat
  headers :: "(string \<times> string) list"

definition NOCACHE_HEADERS :: "(string \<times> string) list" where
  "NOCACHE_HEADERS =
     [(''Content-Disposition'', ''inline''),
      (''Cache-Control'', ''no-store, no-cache, must-revalidate, max-age=0''),
      (''Pragma'', ''no-cache''),
      (''Expires'', ''0'')]"

definition file_response :: "string \<Rightarrow> response" where
  "file_response p = \<lparr>body = File p, status = 200, headers = []\<rparr>"

definition SAVE_THRESHOLD :: nat where
  "SAVE_THRESHOLD = 1"

subsection \<open>Decoding the path\<close>

text \<open>
  The replies given before any decoding (\<open>checkRequestOrigin\<close> accepts every request):
  the character limit, the easter egg, the starting state, the favicon, and the complaint
  about a path that does not end in \<open>i.webp\<close>.  \<open>None\<close> lets the request through.
\<close>

definition static_route :: "string \<Rightarrow> string \<Rightarrow> response option" where
  "static_route dir path =
     (if length path > 220 then Some (file_response (dir @ ''/messages/charlimit.webp''))
      else if str_includes path ''i.wxbp'' then Some (file_response (dir @ ''/messages/doomkisser2.jpg''))
      else if path = ''/i.webp'' then Some (file_response (dir @ ''/messages/start.webp''))
      else if path = ''/favicon.ico'' then Some \<lparr>body = Text [], status = 404, headers = []\<rparr>
      else if \<not> endsWith path ''i.webp'' then Some (file_response (dir @ ''/messages/404.webp''))
      else None)"

text \<open>
  Lines 226 to 241: \<open>path.slice(1, -6).toLowerCase()\<close>, the number test on the first two
  characters, the clamping of episode and map, the filter, and the placeholder \<open>e\<close>.
\<close>

definition decode_inputs :: "string \<Rightarrow> jsnum \<times> jsnum \<times> string" where
  "decode_inputs path =
     (let inputs = toLowerCase (slice path 1 (length path - 6));
          (episode, map', inputs) =
             (if \<not> isNaN_short (slice inputs 0 2)
              then (Math_max (Math_min (charToNumber inputs 0) (Num 3)) (Num 1),
                    Math_max (Math_min (charToNumber inputs 1) (Num 8)) (Num 1),
                    drop 2 inputs)
              else (Num 1, Num 1, inputs));
          inputs = filter (\<lambda>c. c \<in> set ''wasdqe'') inputs;
          inputs = (if inputs = [] then ''e'' else inputs)
      in (episode, map', inputs))"

subsection \<open>The file system and the rest of the server state\<close>

text \<open>
  The file system is the set of paths that exist.  Every change of it is one of the
  operations below; removing or renaming a path takes everything under it along.
  \<open>Mkdir\<close> stands for \<open>fs.mkdir\<close> (the parents that \<open>recursive\<close> creates are left out),
  \<open>Write\<close> for a file written by \<open>Bun.write\<close> or by an external program.
\<close>

datatype fsop =
    Mkdir string
  | Write string
  | Rename string string
  | Copy string string
  | Append string
  | Rm string

definition under :: "string \<Rightarrow> string \<Rightarrow> bool" where
  "under p q = (q = p \<or> startsWith q (p @ ''/''))"

fun apply_op :: "fsop \<Rightarrow> string set \<Rightarrow> string set" where
  "apply_op (Mkdir p) fs = insert p fs"
| "apply_op (Write p) fs = insert p fs"
| "apply_op (Rename src dst) fs = insert dst {q \<in> fs. \<not> under src q}"
| "apply_op (Copy src dst) fs = insert dst fs"
| "apply_op (Append p) fs = insert p fs"
| "apply_op (Rm p) fs = {q \<in> fs. \<not> under p q}"

text \<open>
  The state of the server: the files, the operations performed on them so far in order,
  the records appended to \<open>errors.log\<close>, and the two counters.
\<close>

record world =
  files :: "string set"
  history :: "fsop list"
  errors_log :: "string list"
  requestCount :: nat
  renderCount :: nat

definition perform :: "fsop \<Rightarrow> world \<Rightarrow> world" where
  "perform op w = w\<lparr>files := apply_op op (files w), history := history w @ [op]\<rparr>"

definition fs_exists :: "world \<Rightarrow> string \<Rightarrow> bool" where
  "fs_exists w p = (p \<in> files w)"

text \<open>
  \<open>fs.rename\<close> throws when the source is missing, or for a reason of the disk's own
  (\<open>fault\<close>).
\<close>

definition fs_rename :: "jsError option \<Rightarrow> string \<Rightarrow> string \<Rightarrow> world \<Rightarrow> jsError option \<times> world" where
  "fs_rename fault src dst w =
     (if \<not> fs_exists w src then (Some (JsError ''ENOENT''), w)
      else case fault of
             Some e \<Rightarrow> (Some e, w)
           | None \<Rightarrow> (None, perform (Rename src dst) w))"

text \<open>
  \<open>fs.mkdir(path)\<close> without \<open>recursive\<close> makes one directory inside \<open>parent\<close>: it throws
  when \<open>parent\<close> is missing, when the path exists, or for a reason of the disk's own
  (\<open>fault\<close>).
\<close>

definition fs_mkdir :: "jsError option \<Rightarrow> string \<Rightarrow> string \<Rightarrow> world \<Rightarrow> jsError + world" where
  "fs_mkdir fault parent path w =
     (if \<not> fs_exists w parent then Inl (JsError ''ENOENT'')
      else if fs_exists w path then Inl (JsError ''EEXIST'')
      else case fault of
             Some e \<Rightarrow> Inl e
           | None \<Rightarrow> Inr (perform (Mkdir path) w))"

text \<open>
  \<open>createTempDir\<close> draws a name from the clock and the random generator and calls itself
  again when the directory exists; otherwise it makes the directory inside \<open>tmp\<close> with
  \<open>fs.mkdir\<close>, whose error leaves the function.  The names it would draw are given as a
  list; when every one of them is taken the recursion has not returned (\<open>None\<close>).
\<close>

fun createTempDir :: "string \<Rightarrow> string list \<Rightarrow> jsError option \<Rightarrow> world \<Rightarrow> (jsError + string \<times> world) option" where
  "createTempDir dir [] fault w = None"
| "createTempDir dir (name' # names) fault w =
     (let path = dir @ ''/tmp/'' @ name' in
      if fs_exists w path then createTempDir dir names fault w
      else case fs_mkdir fault (dir @ ''/tmp'') path w of
             Inl e \<Rightarrow> Some (Inl e)
           | Inr w' \<Rightarrow> Some (Inr (path, w')))"

subsection \<open>What the outside world does during one attempt\<close>

text \<open>
  One run of the handler body meets: the names for its scratch directory and the fault
  of the disk, if any, when that directory is made; the outcome of every call inside the
  \<open>try\<close> blocks (\<open>None\<close> when the call returns, the thrown error otherwise); for the
  engine its thrown error or its standard output, and whether it wrote the render and the
  save game, whatever status it reports; whether another request for the same key has
  written the preview by the time the transcoder is called (\<open>rival\<close>, the race of lines
  319 to 325); the time stamp of the error record; and the disk as \<open>clearOldCache\<close> finds
  it.  The remaining calls outside every \<open>try\<close> (making the directory of the cache entry
  with \<open>recursive\<close>, removing the scratch directory with \<open>force\<close>, appending to the log,
  copying the level image, writing the statistics) are taken to succeed.  The environment
  gives \<open>__dirname\<close> and one such record for the first run (\<open>retry = False\<close>) and one for
  the second.
\<close>

record attempt =
  tmpNames :: "string list"
  mkdir_tmp :: "jsError option"
  write_demo :: "jsError option"
  doom :: "jsError + string"
  doom_render :: bool
  doom_save :: bool
  write_concat :: "jsError option"
  ffmpeg_concat :: "jsError option"
  ffmpeg_trim :: "jsError option"
  rename_render :: "jsError option"
  rival :: bool
  ffmpeg_webp :: "jsError option"
  rename_save :: "jsError option"
  now :: string
  cleanup_disk :: disk

record env =
  dirname :: string
  attempt :: "bool \<Rightarrow> attempt"

text \<open>The variables \<open>err\<close>, \<open>err2\<close> and \<open>stdout\<close> declared before the \<open>try\<close>.\<close>

record locals =
  err :: "jsError option"
  err2 :: "jsError option"
  stdout :: string

subsection \<open>Keys and paths\<close>

text \<open>A key is episode, map and the input sequence, as decoded.\<close>

type_synonym key = "jsnum \<times> jsnum \<times> string"

definition em_of :: "key \<Rightarrow> string" where
  "em_of k = (case k of (episode, map', inputs) \<Rightarrow> numberToString episode @ numberToString map')"

text \<open>\<open>inputs.slice(0, -SAVE_THRESHOLD)\<close>: the sequence to load from.\<close>

definition save_of :: "key \<Rightarrow> string" where
  "save_of k = (case k of (episode, map', inputs) \<Rightarrow> slice inputs 0 (length inputs - SAVE_THRESHOLD))"

definition cachePath :: "string \<Rightarrow> key \<Rightarrow> string" where
  "cachePath dir k = (case k of (episode, map', inputs) \<Rightarrow> dir @ ''/cache/'' @ em_of k @ inputs)"

definition outputPathWEBP :: "string \<Rightarrow> key \<Rightarrow> string" where
  "outputPathWEBP dir k = cachePath dir k @ ''/output.webp''"

definition outputPathMP4 :: "string \<Rightarrow> key \<Rightarrow> string" where
  "outputPathMP4 dir k = cachePath dir k @ ''/output.mp4''"

definition newSavePath :: "string \<Rightarrow> key \<Rightarrow> string" where
  "newSavePath dir k = cachePath dir k @ ''/doomsav0.dsg''"

definition savePathDSG :: "string \<Rightarrow> key \<Rightarrow> string" where
  "savePathDSG dir k = dir @ ''/cache/'' @ em_of k @ save_of k @ ''/doomsav0.dsg''"

definition savePathMP4 :: "string \<Rightarrow> key \<Rightarrow> string" where
  "savePathMP4 dir k = dir @ ''/cache/'' @ em_of k @ save_of k @ ''/output.mp4''"

definition mapInfoPath :: "string \<Rightarrow> key \<Rightarrow> string" where
  "mapInfoPath dir k = dir @ ''/messages/levels/'' @ em_of k @ ''.webp''"

subsection \<open>The try block\<close>

text \<open>
  A step takes the state and the local variables and either completes (\<open>None\<close>) or throws
  (\<open>Some e\<close>); the state and the variables at the throw are what the handler of the
  exception sees.
\<close>

type_synonym step = "world \<times> locals \<Rightarrow> jsError option \<times> world \<times> locals"

definition and_then :: "step \<Rightarrow> step \<Rightarrow> step" where
  "and_then f g s = (case f s of (Some e, s') \<Rightarrow> (Some e, s') | (None, s') \<Rightarrow> g s')"

text \<open>Forging: \<open>Bun.write(demoPath, forgeDemo(inputs.slice(-SAVE_THRESHOLD), episode, map))\<close>.\<close>

definition forge_step :: "attempt \<Rightarrow> key \<Rightarrow> string \<Rightarrow> step" where
  "forge_step a k tmp s =
     (case k of (episode, map', inputs) \<Rightarrow>
      case s of (w, l) \<Rightarrow>
        (case forgeDemo (drop (length inputs - SAVE_THRESHOLD) inputs) episode map' of
           Inl e \<Rightarrow> (Some e, w, l)
         | Inr buffer \<Rightarrow>
             (case write_demo a of
                Some e \<Rightarrow> (Some e, w, l)
              | None \<Rightarrow> (None, perform (Write (tmp @ ''/demo.lmp'')) w, l))))"

text \<open>
  Simulating.  The engine is run with or without \<open>-loadgame\<close>; either way an error it
  throws is caught and kept in \<open>err\<close>, and \<open>stdout\<close> is taken from the error.  An error
  without \<open>stdout\<close> makes \<open>e.stdout.toString()\<close> throw a \<open>TypeError\<close> out of the handler.
\<close>

definition doom_files :: "attempt \<Rightarrow> string \<Rightarrow> world \<Rightarrow> world" where
  "doom_files a tmp w =
     (let w = (if doom_render a then perform (Write (tmp @ ''/render.mp4'')) w else w)
      in if doom_save a then perform (Write (tmp @ ''/doomsav0.dsg'')) w else w)"

definition doom_step :: "attempt \<Rightarrow> key \<Rightarrow> string \<Rightarrow> step" where
  "doom_step a k tmp s =
     (case s of (w, l) \<Rightarrow>
        (case doom a of
           Inr out \<Rightarrow> (None, doom_files a tmp w, l\<lparr>stdout := out\<rparr>)
         | Inl e \<Rightarrow>
             (case e of
                ShellError out errout \<Rightarrow> (None, doom_files a tmp w, l\<lparr>err := Some e, stdout := out\<rparr>)
              | JsError m \<Rightarrow> (Some (JsError ''TypeError''), doom_files a tmp w, l\<lparr>err := Some e\<rparr>))))"

text \<open>Concatenating with the video of the previous sequence and trimming.\<close>

definition concat_step :: "attempt \<Rightarrow> string \<Rightarrow> key \<Rightarrow> string \<Rightarrow> step" where
  "concat_step a dir k tmp s =
     (case s of (w, l) \<Rightarrow>
        (case write_concat a of
           Some e \<Rightarrow> (Some e, w, l)
         | None \<Rightarrow>
             (let w = perform (Write (tmp @ ''/concat.txt'')) w in
              case ffmpeg_concat a of
                Some e \<Rightarrow> (Some e, w, l)
              | None \<Rightarrow>
                  (let w = perform (Write (tmp @ ''/concat.mp4'')) w in
                   case ffmpeg_trim a of
                     Some e \<Rightarrow> (Some e, w, l)
                   | None \<Rightarrow> (None, perform (Write (outputPathMP4 dir k)) w, l)))))"

text \<open>Without a prior sequence the rendered video is used as it is.\<close>

definition adopt_step :: "attempt \<Rightarrow> string \<Rightarrow> key \<Rightarrow> string \<Rightarrow> step" where
  "adopt_step a dir k tmp s =
     (case s of (w, l) \<Rightarrow>
        (case fs_rename (rename_render a) (tmp @ ''/render.mp4'') (outputPathMP4 dir k) w of
           (r, w') \<Rightarrow> (r, w', l)))"

text \<open>
  The files as the transcoder finds them: a rival request for the same key has put the
  preview there, or nothing has changed.  The write of the rival is not an operation of
  this handler and stays out of \<open>history\<close>.
\<close>

definition meanwhile :: "attempt \<Rightarrow> string \<Rightarrow> key \<Rightarrow> world \<Rightarrow> world" where
  "meanwhile a dir k w =
     (if rival a then w\<lparr>files := insert (outputPathWEBP dir k) (files w)\<rparr> else w)"

text \<open>
  Transcoding to WEBP, with its own handler: an error is thrown again unless it has a
  \<open>stdout\<close> that includes \<open>already exists. Overwrite?\<close>.
\<close>

definition webp_step :: "attempt \<Rightarrow> string \<Rightarrow> key \<Rightarrow> step" where
  "webp_step a dir k s =
     (case s of (w, l) \<Rightarrow>
        (let w = meanwhile a dir k w in
         case ffmpeg_webp a of
           None \<Rightarrow> (None, perform (Write (outputPathWEBP dir k)) w, l)
         | Some e \<Rightarrow>
             (case e of
                JsError m \<Rightarrow> (Some e, w, l)
              | ShellError out errout \<Rightarrow>
                  if \<not> str_includes out ''already exists. Overwrite?'' then (Some e, w, l)
                  else (None, w, l))))"

text \<open>The inner \<open>try\<close> (lines 302 to 333): its handler keeps the error in \<open>err2\<close> and throws it again.\<close>

definition video_step :: "attempt \<Rightarrow> string \<Rightarrow> key \<Rightarrow> string \<Rightarrow> step" where
  "video_step a dir k tmp s =
     (case and_then (if save_of k \<noteq> [] then concat_step a dir k tmp else adopt_step a dir k tmp)
                    (webp_step a dir k) s of
        (Some e, w, l) \<Rightarrow> (Some e, w, l\<lparr>err2 := Some e\<rparr>)
      | (None, w, l) \<Rightarrow> (None, w, l))"

text \<open>Promoting: the save game moves from the scratch directory into the cache entry.\<close>

definition promote_step :: "attempt \<Rightarrow> string \<Rightarrow> key \<Rightarrow> string \<Rightarrow> step" where
  "promote_step a dir k tmp s =
     (case s of (w, l) \<Rightarrow>
        (case fs_rename (rename_save a) (tmp @ ''/doomsav0.dsg'') (newSavePath dir k) w of
           (r, w') \<Rightarrow> (r, w', l)))"

text \<open>The outer \<open>try\<close> (lines 280 to 335).\<close>

definition try_block :: "attempt \<Rightarrow> string \<Rightarrow> key \<Rightarrow> string \<Rightarrow> step" where
  "try_block a dir k tmp =
     and_then (forge_step a k tmp)
       (and_then (doom_step a k tmp)
          (and_then (video_step a dir k tmp) (promote_step a dir k tmp)))"

subsection \<open>The handler of the outer try, and its finally\<close>

text \<open>
  The error string: a shell error gives its output and its error output, another error is
  printed, no error is the empty string.
\<close>

definition errToString :: "jsError option \<Rightarrow> string" where
  "errToString x =
     (case x of
        None \<Rightarrow> []
      | Some (ShellError out errout) \<Rightarrow> out @ [CHR 0x0A] @ errout
      | Some (JsError m) \<Rightarrow> m)"

definition errstr :: "attempt \<Rightarrow> bool \<Rightarrow> locals \<Rightarrow> string" where
  "errstr a retry l =
     ''['' @ now a @ ''] retry = '' @ (if retry then ''true'' else ''false'') @ [CHR 0x0A]
       @ errToString (err l) @ [CHR 0x0A] @ errToString (err2 l) @ [CHR 0x0A, CHR 0x0A]"

definition log_error :: "attempt \<Rightarrow> bool \<Rightarrow> locals \<Rightarrow> world \<Rightarrow> world" where
  "log_error a retry l w =
     (perform (Append ''errors.log'') w)\<lparr>errors_log := errors_log w @ [errstr a retry l]\<rparr>"

text \<open>
  A call of the handler returns a response, throws, or does not return (when
  \<open>createTempDir\<close> does not).
\<close>

datatype outcome = Returns response | Throws jsError | Diverges

text \<open>The directories that \<open>clearOldCache\<close> removed.\<close>

definition removed :: "eviction \<Rightarrow> string list" where
  "removed s = map (fullPath \<circ> fst) (filter snd (rm_log s))"

text \<open>
  The \<open>finally\<close> block runs after the \<open>try\<close> and its handler, whatever they returned or
  threw: it removes the scratch directory and calls \<open>clearOldCache\<close>.  An error of
  \<open>clearOldCache\<close> replaces the pending result.
\<close>

definition finally_block :: "attempt \<Rightarrow> string \<Rightarrow> string \<Rightarrow> outcome \<times> world \<Rightarrow> outcome \<times> world" where
  "finally_block a dir tmp r =
     (case r of (out, w) \<Rightarrow>
        if out = Diverges then (out, w)
        else
          (let w = perform (Rm tmp) w in
           case clearOldCache (cleanup_disk a) (dir @ ''/cache'') of
             Inl e \<Rightarrow> (Throws e, w)
           | Inr s \<Rightarrow> (out, fold perform (map Rm (removed s)) w)))"

definition preview_response :: "string \<Rightarrow> key \<Rightarrow> response" where
  "preview_response dir k = \<lparr>body = File (outputPathWEBP dir k), status = 200, headers = NOCACHE_HEADERS\<rparr>"

definition error_response :: "string \<Rightarrow> response" where
  "error_response dir = \<lparr>body = File (dir @ ''/messages/error.webp''), status = 200, headers = NOCACHE_HEADERS\<rparr>"

definition continuity_response :: response where
  "continuity_response = \<lparr>body = Text [], status = 500, headers = NOCACHE_HEADERS\<rparr>"

text \<open>Lines 359 to 376: the level transition image, the statistics, the response.\<close>

definition after_try :: "string \<Rightarrow> key \<Rightarrow> locals \<Rightarrow> world \<Rightarrow> outcome \<times> world" where
  "after_try dir k l w =
     (let w = (if str_includes (stdout l) ''DOOMCORD G_ExitLevel'' \<and> fs_exists w (mapInfoPath dir k)
               then perform (Copy (mapInfoPath dir k) (outputPathWEBP dir k)) w else w);
          w = (perform (Write ''stats.txt'') w)\<lparr>renderCount := Suc (renderCount w)\<rparr>
      in (Returns (preview_response dir k), w))"

subsection \<open>handleRequest\<close>

text \<open>
  The handler up to the end of the outer \<open>try\<close> block: either it is done (a reply given
  before the \<open>try\<close>, an error thrown by \<open>createTempDir\<close>, or no scratch directory), or
  the \<open>try\<close> block ran for a key in a scratch directory and completed or threw.
\<close>

datatype stage =
    Done outcome world
  | Tried "jsError option" key string world locals



definition before_catch :: "env \<Rightarrow> string \<Rightarrow> bool \<Rightarrow> world \<Rightarrow> stage" where
  "before_catch E path retry w =
     (let w = w\<lparr>requestCount := Suc (requestCount w)\<rparr>; dir = dirname E in
      case static_route dir path of
        Some r \<Rightarrow> Done (Returns r) w
      | None \<Rightarrow>
          (let k = decode_inputs path in
           if fs_exists w (outputPathWEBP dir k) then Done (Returns (preview_response dir k)) w
           else
             (case createTempDir dir (tmpNames (attempt E retry)) (mkdir_tmp (attempt E retry)) w of
                None \<Rightarrow> Done Diverges w
              | Some (Inl e) \<Rightarrow> Done (Throws e) w
              | Some (Inr (tmp, w)) \<Rightarrow>
                  if save_of k \<noteq> [] \<and> \<not> fs_exists w (savePathDSG dir k)
                  then Done (Returns continuity_response) (perform (Rm tmp) w)
                  else
                    (let w = (if \<not> fs_exists w (cachePath dir k)
                              then perform (Mkdir (cachePath dir k)) w else w)
                     in case try_block (attempt E retry) dir k tmp
                               (w, \<lparr>err = None, err2 = None, stdout = []\<rparr>) of
                          (thrown, w, l) \<Rightarrow> Tried thrown k tmp w l))))"

text \<open>
  The whole handler.  When the \<open>try\<close> block threw, the error is logged and the handler
  answers with the error image on its second run and calls itself with \<open>retry = True\<close> on
  its first; the \<open>finally\<close> block of the first run runs after the second run has ended.
\<close>

function handleRequest :: "env \<Rightarrow> string \<Rightarrow> bool \<Rightarrow> world \<Rightarrow> outcome \<times> world" where
  "handleRequest E path retry w =
     (case before_catch E path retry w of
        Done out w \<Rightarrow> (out, w)
      | Tried thrown k tmp w l \<Rightarrow>
          (case thrown of
             Some e \<Rightarrow>
               (let w = log_error (attempt E retry) retry l w in
                if retry
                then finally_block (attempt E retry) (dirname E) tmp (Returns (error_response (dirname E)), w)
                else finally_block (attempt E retry) (dirname E) tmp (handleRequest E path True w))
           | None \<Rightarrow>
               (case finally_block (attempt E retry) (dirname E) tmp (Returns (preview_response (dirname E) k), w) of
                  (Returns r, w) \<Rightarrow> after_try (dirname E) k l w
                | (out, w) \<Rightarrow> (out, w))))"
  by pat_completeness auto
termination
  by (relation "measure (\<lambda>(E, path, retry, w). if retry then 0 else 1)") auto

declare handleRequest.simps [simp del]

subsection \<open>Concrete worlds and environments\<close>

text \<open>
  The server directory \<open>/srv\<close> right after installation, with its scratch directory and
  nothing cached; and the same without the scratch directory.
\<close>

definition fresh_world :: world where
  "fresh_world = \<lparr>files = {''/srv/tmp''}, history = [], errors_log = [], requestCount = 0, renderCount = 0\<rparr>"

definition bare_world :: world where
  "bare_world = \<lparr>files = {}, history = [], errors_log = [], requestCount = 0, renderCount = 0\<rparr>"

text \<open>
  An attempt in which every call succeeds (the engine reports a failure all the same) and
  the disk has room.
\<close>

definition smooth :: attempt where
  "smooth = \<lparr>tmpNames = [''t1'', ''t2''], mkdir_tmp = None, write_demo = None,
     doom = Inl (ShellError ''ok'' []), doom_render = True, doom_save = True, write_concat = None,
     ffmpeg_concat = None, ffmpeg_trim = None, rename_render = None, rival = False, ffmpeg_webp = None,
     rename_save = None, now = ''2024-01-01T00:00:00.000Z'', cleanup_disk = roomy_disk\<rparr>"

definition smooth_env :: env where
  "smooth_env = \<lparr>dirname = ''/srv'', attempt = (\<lambda>retry. smooth)\<rparr>"

text \<open>
  The process has run out of file descriptors while the disk is short of space: the demo
  cannot be written, in either run, and the cache directory cannot be listed.
\<close>

definition starved :: "bool \<Rightarrow> attempt" where
  "starved retry = smooth\<lparr>tmpNames := [if retry then ''t2'' else ''t1''],
     write_demo := Some (JsError ''EMFILE''), cleanup_disk := readdir_throws_disk\<rparr>"

definition starved_env :: env where
  "starved_env = \<lparr>dirname = ''/srv'', attempt = starved\<rparr>"

definition render_ops :: "string \<Rightarrow> key \<Rightarrow> string \<Rightarrow> world \<Rightarrow> fsop list" where
  "render_ops dir k tmp w =
     Mkdir tmp
     # (if cachePath dir k \<in> files w then [] else [Mkdir (cachePath dir k)])
     @ [Write (tmp @ ''/demo.lmp''), Write (tmp @ ''/render.mp4''), Write (tmp @ ''/doomsav0.dsg'')]
     @ (if save_of k = [] then [Rename (tmp @ ''/render.mp4'') (outputPathMP4 dir k)]
        else [Write (tmp @ ''/concat.txt''), Write (tmp @ ''/concat.mp4''), Write (outputPathMP4 dir k)])
     @ [Write (outputPathWEBP dir k)]"

definition preview_written :: "string \<Rightarrow> key \<Rightarrow> string \<Rightarrow> world \<Rightarrow> world" where
  "preview_written dir k tmp w =
     fold perform (render_ops dir k tmp w) (w\<lparr>requestCount := Suc (requestCount w)\<rparr>)"








section \<open>forgeDemo in the memory of the process\<close>

text \<open>
  \<open>forgeDemo\<close> above takes and returns values.  The source works on objects: it
  allocates typed arrays (\<open>new Int8Array\<close>), writes into them (\<open>buffer[i] = v\<close>,
  \<open>buffer.set\<close>) and returns a reference.  Here the same statements run on the memory
  of the process: the typed arrays allocated so far, by address, next to everything else a
  function of the module could read or change, which is the state of the server (files,
  logs and the counters \<open>requestCount\<close> and \<open>renderCount\<close>) and the clock and the random
  generator that \<open>createTempDir\<close> draws from.
\<close>

record memory =
  arrays :: "int8 list list"
  server :: world
  clock :: nat
  entropy :: "nat list"

text \<open>\<open>new Int8Array(bytes)\<close>: a new object, at the next address.\<close>

definition new_Int8Array :: "int8 list \<Rightarrow> memory \<Rightarrow> nat \<times> memory" where
  "new_Int8Array bytes m = (length (arrays m), m\<lparr>arrays := arrays m @ [bytes]\<rparr>)"

text \<open>\<open>buffer[i] = v\<close>; an index outside the array is ignored.\<close>

definition store_byte :: "nat \<Rightarrow> nat \<Rightarrow> int8 \<Rightarrow> memory \<Rightarrow> memory" where
  "store_byte buffer i v m = m\<lparr>arrays := (arrays m)[buffer := (arrays m ! buffer)[i := v]]\<rparr>"

text \<open>\<open>buffer.set(tic, offset)\<close>, where \<open>tic\<close> is a reference or \<open>undefined\<close>.\<close>

definition set_from :: "nat \<Rightarrow> nat option \<Rightarrow> nat \<Rightarrow> memory \<Rightarrow> jsError option \<times> memory" where
  "set_from buffer tic offset m =
     (case buffer_set (arrays m ! buffer) (map_option (\<lambda>t. arrays m ! t) tic) offset of
        Inl e \<Rightarrow> (Some e, m)
      | Inr bytes \<Rightarrow> (None, m\<lparr>arrays := (arrays m)[buffer := bytes]\<rparr>))"

text \<open>The \<open>switch\<close>: a new array of four bytes, or \<open>undefined\<close>.\<close>

definition new_tic :: "char \<Rightarrow> memory \<Rightarrow> nat option \<times> memory" where
  "new_tic c m =
     (case tic_of c of
        None \<Rightarrow> (None, m)
      | Some bytes \<Rightarrow> (case new_Int8Array bytes m of (t, m') \<Rightarrow> (Some t, m')))"

fun tic_loop_in :: "nat \<Rightarrow> nat option \<Rightarrow> nat \<Rightarrow> nat list \<Rightarrow> memory \<Rightarrow> jsError option \<times> memory" where
  "tic_loop_in buffer tic i [] m = (None, m)"
| "tic_loop_in buffer tic i (j # js) m =
     (case set_from buffer tic (13 + i * INPUT_DURATION * 4 + j * 4) m of
        (Some e, m') \<Rightarrow> (Some e, m')
      | (None, m') \<Rightarrow> tic_loop_in buffer tic i js m')"

fun input_loop_in :: "nat \<Rightarrow> string \<Rightarrow> nat list \<Rightarrow> memory \<Rightarrow> jsError option \<times> memory" where
  "input_loop_in buffer inputs [] m = (None, m)"
| "input_loop_in buffer inputs (i # is) m =
     (case new_tic (inputs ! i) m of
        (tic, m') \<Rightarrow>
          (case tic_loop_in buffer tic i [0..<INPUT_DURATION] m' of
             (Some e, m'') \<Rightarrow> (Some e, m'')
           | (None, m'') \<Rightarrow> input_loop_in buffer inputs is m''))"

text \<open>
  The function: the reference it returns or the error it throws, and the memory it
  leaves.
\<close>

definition forgeDemo_in :: "string \<Rightarrow> jsnum \<Rightarrow> jsnum \<Rightarrow> memory \<Rightarrow> (jsError + nat) \<times> memory" where
  "forgeDemo_in inputs0 episode map' m0 =
     (let inputs = replaceAll_e inputs0 in
      case new_Int8Array (replicate (14 + length inputs * INPUT_DURATION * 4) 0) m0 of
        (buffer, m) \<Rightarrow>
          (let m = store_byte buffer 0 109 m;
               m = store_byte buffer 1 0 m;
               m = store_byte buffer 2 (toInt8 episode) m;
               m = store_byte buffer 3 (toInt8 map') m;
               m = store_byte buffer 4 0 m;
               m = store_byte buffer 5 0 m;
               m = store_byte buffer 6 0 m;
               m = store_byte buffer 7 0 m;
               m = store_byte buffer 8 0 m;
               m = store_byte buffer 9 1 m;
               m = store_byte buffer 10 0 m;
               m = store_byte buffer 11 0 m;
               m = store_byte buffer 12 0 m;
               m = store_byte buffer (length (arrays m ! buffer) - 1) 0x80 m
           in case input_loop_in buffer inputs [0..<length inputs] m of
                (Some e, m) \<Rightarrow> (Inl e, m)
              | (None, m) \<Rightarrow> (Inr buffer, m)))"

text \<open>What the caller holds after the call: the bytes behind the reference, or the error.\<close>

definition returned :: "(jsError + nat) \<times> memory \<Rightarrow> jsError + int8 list" where
  "returned r =
     (case r of
        (Inl e, m) \<Rightarrow> Inl e
      | (Inr buffer, m) \<Rightarrow> Inr (arrays m ! buffer))"

section \<open>The encoder produces the demo layout\<close>

lemma tic_loop_upt:
  assumes "length t = 4"
  shows "13 + i * INPUT_DURATION * 4 + 4 * (j0 + k) \<le> length buffer \<Longrightarrow>
   tic_loop (Some t) i [j0..<j0 + k] buffer =
     Inr (take (13 + i * INPUT_DURATION * 4 + 4 * j0) buffer @ concat (replicate k t)
          @ drop (13 + i * INPUT_DURATION * 4 + 4 * (j0 + k)) buffer)"
proof (induction k arbitrary: j0 buffer)
  case 0
  then show ?case by simp
next
  case (Suc k)
  let ?off = "13 + i * INPUT_DURATION * 4"
  let ?b = "take (?off + 4 * j0) buffer @ t @ drop (?off + 4 * j0 + 4) buffer"
  have upt: "[j0..<j0 + Suc k] = j0 # [Suc j0..<Suc j0 + k]"
    by (simp add: upt_rec)
  have set1: "buffer_set buffer (Some t) (?off + j0 * 4) = Inr ?b"
    using Suc.prems assms by (simp add: buffer_set_def mult.commute)
  have len: "length ?b = length buffer"
    using Suc.prems assms by simp
  have IH: "tic_loop (Some t) i [Suc j0..<Suc j0 + k] ?b =
     Inr (take (?off + 4 * Suc j0) ?b @ concat (replicate k t) @ drop (?off + 4 * (Suc j0 + k)) ?b)"
    using Suc.prems len by (intro Suc.IH) simp
  have tk: "take (?off + 4 * Suc j0) ?b = take (?off + 4 * j0) buffer @ t"
    using Suc.prems assms by simp
  have dr: "drop (?off + 4 * (Suc j0 + k)) ?b = drop (?off + 4 * (j0 + Suc k)) buffer"
    using Suc.prems assms by (simp add: ac_simps)
  show ?case
  proof -
    have "tic_loop (Some t) i [j0..<j0 + Suc k] buffer = tic_loop (Some t) i [Suc j0..<Suc j0 + k] ?b"
      unfolding upt using set1 by (simp add: mult.commute)
    also have "\<dots> = Inr ((take (?off + 4 * j0) buffer @ t) @ concat (replicate k t) @ drop (?off + 4 * (j0 + Suc k)) buffer)"
      unfolding IH tk dr ..
    finally show ?thesis by simp
  qed
qed

lemma tic_loop_full:
  assumes "length t = 4" "13 + (i + 1) * 60 \<le> length buffer"
  shows "tic_loop (Some t) i [0..<INPUT_DURATION] buffer =
     Inr (take (13 + i * 60) buffer @ concat (replicate INPUT_DURATION t) @ drop (13 + (i + 1) * 60) buffer)"
  using tic_loop_upt[OF assms(1), of i 0 INPUT_DURATION buffer] assms(2)
  by (simp add: INPUT_DURATION_def mult.commute)

lemma tic_of_length: "tic_of c = Some t \<Longrightarrow> length t = 4"
  by (auto simp: tic_of_def split: if_splits)

lemma tic_of_valid: "c \<in> set ''wasdqe'' \<Longrightarrow> \<exists>t. tic_of c = Some t"
  by (auto simp: tic_of_def)

lemma input_loop_valid:
  "i0 + k \<le> length inputs \<Longrightarrow> 13 + (i0 + k) * 60 \<le> length buffer \<Longrightarrow>
   \<forall>i. i0 \<le> i \<and> i < i0 + k \<longrightarrow> inputs ! i \<in> set ''wasdqe'' \<Longrightarrow>
   input_loop inputs [i0..<i0 + k] buffer =
     Inr (take (13 + i0 * 60) buffer @ lmp_tics (take k (drop i0 inputs))
          @ drop (13 + (i0 + k) * 60) buffer)"
proof (induction k arbitrary: i0 buffer)
  case 0
  then show ?case by (simp add: lmp_tics_def)
next
  case (Suc k)
  have i0: "i0 < length inputs" using Suc.prems by simp
  have "inputs ! i0 \<in> set ''wasdqe''" using Suc.prems(3) by simp
  then obtain t where t: "tic_of (inputs ! i0) = Some t" using tic_of_valid by blast
  have lt: "length t = 4" using t by (rule tic_of_length)
  let ?b = "take (13 + i0 * 60) buffer @ concat (replicate INPUT_DURATION t) @ drop (13 + (i0 + 1) * 60) buffer"
  have lc: "length (concat (replicate INPUT_DURATION t)) = 60"
    using lt by (simp add: INPUT_DURATION_def length_concat sum_list_replicate)
  have upt: "[i0..<i0 + Suc k] = i0 # [Suc i0..<Suc i0 + k]"
    by (simp add: upt_rec)
  have step: "tic_loop (tic_of (inputs ! i0)) i0 [0..<INPUT_DURATION] buffer = Inr ?b"
    unfolding t using Suc.prems by (intro tic_loop_full[OF lt]) simp
  have len: "length ?b = length buffer"
    using Suc.prems lc by simp
  have IH: "input_loop inputs [Suc i0..<Suc i0 + k] ?b =
     Inr (take (13 + Suc i0 * 60) ?b @ lmp_tics (take k (drop (Suc i0) inputs)) @ drop (13 + (Suc i0 + k) * 60) ?b)"
    using Suc.prems len by (intro Suc.IH) simp_all
  have tk: "take (13 + Suc i0 * 60) ?b = take (13 + i0 * 60) buffer @ concat (replicate INPUT_DURATION t)"
    using Suc.prems lc by simp
  have dr: "drop (13 + (Suc i0 + k) * 60) ?b = drop (13 + (i0 + Suc k) * 60) buffer"
    using Suc.prems lc by (simp add: ac_simps)
  have tics: "lmp_tics (take (Suc k) (drop i0 inputs)) =
      concat (replicate INPUT_DURATION t) @ lmp_tics (take k (drop (Suc i0) inputs))"
    using i0 t by (simp add: lmp_tics_def Cons_nth_drop_Suc[symmetric])
  have "input_loop inputs [i0..<i0 + Suc k] buffer = input_loop inputs [Suc i0..<Suc i0 + k] ?b"
    unfolding upt using step by simp
  also have "\<dots> = Inr ((take (13 + i0 * 60) buffer @ concat (replicate INPUT_DURATION t))
       @ lmp_tics (take k (drop (Suc i0) inputs)) @ drop (13 + (i0 + Suc k) * 60) buffer)"
    unfolding IH tk dr ..
  finally show ?case unfolding tics by simp
qed

lemma replaceAll_e_alphabet:
  "set inputs \<subseteq> set ''wasdqe'' \<Longrightarrow> set (replaceAll_e inputs) \<subseteq> set ''wasdqe''"
  by (auto simp: replaceAll_e_def split: if_splits)

lemma forgeDemo_layout:
  assumes "set inputs \<subseteq> set ''wasdqe''"
  shows "forgeDemo inputs episode map' = Inr (lmp_layout inputs episode map')"
proof -
  let ?x = "replaceAll_e inputs"
  let ?n = "length ?x"
  define b0 where "b0 = replicate (14 + ?n * INPUT_DURATION * 4) (0 :: int8)"
  define b where "b = b0[0 := 109, 1 := 0, 2 := toInt8 episode, 3 := toInt8 map', 4 := 0, 5 := 0,
       6 := 0, 7 := 0, 8 := 0, 9 := 1, 10 := 0, 11 := 0, 12 := 0, 13 + ?n * 60 := 0x80]"
  have lb: "length b = 14 + ?n * 60" by (simp add: b_def b0_def INPUT_DURATION_def)
  have fd: "forgeDemo inputs episode map' = input_loop ?x [0..<?n] b"
    by (simp add: forgeDemo_def Let_def b_def b0_def INPUT_DURATION_def mult.commute)
  have "b0 = replicate (13 + (?n * 60 + 1)) 0"
    by (simp add: b0_def INPUT_DURATION_def)
  also have "\<dots> = replicate 13 0 @ replicate (?n * 60) 0 @ replicate 1 0"
    by (simp only: replicate_add)
  finally have split: "b0 = replicate 13 0 @ replicate (?n * 60) 0 @ [0]"
    by simp
  have hd: "take 13 b = lmp_header episode map'"
    unfolding b_def split
    by (simp add: lmp_header_def list_update_append numeral_eq_Suc)
  have tl: "drop (13 + ?n * 60) b = [0x80]"
    unfolding b_def split
    by (simp add: list_update_append)
  have "input_loop ?x [0..<0 + ?n] b = Inr (take (13 + 0 * 60) b @ lmp_tics (take ?n (drop 0 ?x)) @ drop (13 + (0 + ?n) * 60) b)"
    using lb replaceAll_e_alphabet[OF assms] by (intro input_loop_valid) (auto dest: nth_mem)
  then show ?thesis
    by (simp add: fd hd tl lmp_layout_def)
qed

text \<open>A character outside the alphabet leaves \<open>tic\<close> undefined, and \<open>buffer.set\<close> throws.\<close>

lemma input_loop_append:
  "input_loop inputs (is @ js) buffer =
     (case input_loop inputs is buffer of Inl e \<Rightarrow> Inl e | Inr buffer' \<Rightarrow> input_loop inputs js buffer')"
  by (induction "is" arbitrary: buffer) (simp_all split: sum.splits)

lemma tic_of_None: "c \<notin> set ''wasdqe'' \<Longrightarrow> tic_of c = None"
  by (simp add: tic_of_def)

lemma input_loop_undefined:
  "tic_of (inputs ! i) = None \<Longrightarrow> input_loop inputs (i # is) buffer = Inl (JsError ''TypeError'')"
  by (simp add: INPUT_DURATION_def upt_rec buffer_set_def)

lemma replaceAll_e_set: "set (replaceAll_e inputs) = set inputs"
  by (induction inputs) (auto simp: replaceAll_e_def)

lemma forgeDemo_undefined_tic:
  assumes "\<not> set inputs \<subseteq> set ''wasdqe''"
  shows "forgeDemo inputs episode map' = Inl (JsError ''TypeError'')"
proof -
  let ?x = "replaceAll_e inputs"
  let ?n = "length ?x"
  define b where "b = (replicate (14 + ?n * INPUT_DURATION * 4) (0 :: int8))
      [0 := 109, 1 := 0, 2 := toInt8 episode, 3 := toInt8 map', 4 := 0, 5 := 0,
       6 := 0, 7 := 0, 8 := 0, 9 := 1, 10 := 0, 11 := 0, 12 := 0, 13 + ?n * 60 := 0x80]"
  have lb: "length b = 14 + ?n * 60" by (simp add: b_def INPUT_DURATION_def)
  have fd: "forgeDemo inputs episode map' = input_loop ?x [0..<?n] b"
    by (simp add: forgeDemo_def Let_def b_def INPUT_DURATION_def mult.commute)
  from assms have "\<exists>c \<in> set ?x. c \<notin> set ''wasdqe''"
    unfolding replaceAll_e_set by blast
  then obtain ys y zs where x: "?x = ys @ y # zs" and y: "y \<notin> set ''wasdqe''"
    and ys: "\<forall>z \<in> set ys. \<not> z \<notin> set ''wasdqe''"
    using split_list_first_prop[of ?x "\<lambda>c. c \<notin> set ''wasdqe''"] by blast
  let ?i = "length ys"
  have n: "?n = ?i + Suc (length zs)"
    by (simp only: x length_append length_Cons)
  have i: "?i < ?n" unfolding n by simp
  have "[0..<?i + Suc (length zs)] = [0..<?i] @ [?i..<?i + Suc (length zs)]"
    by (rule upt_add_eq_append) simp
  also have "[?i..<?i + Suc (length zs)] = ?i # [Suc ?i..<?i + Suc (length zs)]"
    by (rule upt_conv_Cons) simp
  finally have idx: "[0..<?n] = [0..<0 + ?i] @ ?i # [Suc ?i..<?n]"
    unfolding n by simp
  have good: "\<forall>j. 0 \<le> j \<and> j < 0 + ?i \<longrightarrow> ?x ! j \<in> set ''wasdqe''"
    using ys x by (auto simp: nth_append)
  have first: "input_loop ?x [0..<0 + ?i] b =
      Inr (take (13 + 0 * 60) b @ lmp_tics (take ?i (drop 0 ?x)) @ drop (13 + (0 + ?i) * 60) b)"
    using i lb good by (intro input_loop_valid) simp_all
  have bad: "tic_of (?x ! ?i) = None"
    using x y by (simp add: tic_of_None)
  show ?thesis
    unfolding fd idx input_loop_append first
    by (simp only: sum.case input_loop_undefined[OF bad])
qed

lemma tic_of_fields:
  "c \<in> set ''wasdqe'' \<Longrightarrow> tic_of c = Some [forwardmove c, 0, angleturn c, buttons c]"
  by (auto simp: tic_of_def forwardmove_def angleturn_def buttons_def)

lemma length_replaceAll_e:
  "length (replaceAll_e inputs) = length inputs + 2 * count_list inputs (CHR ''e'')"
  by (induction inputs) (simp_all add: replaceAll_e_def)

lemma length_lmp_tics:
  "set xs \<subseteq> set ''wasdqe'' \<Longrightarrow> length (lmp_tics xs) = 60 * length xs"
proof (induction xs)
  case Nil
  then show ?case by (simp add: lmp_tics_def)
next
  case (Cons c xs)
  then obtain t where t: "tic_of c = Some t" using tic_of_valid[of c] by auto
  have "length (concat (replicate INPUT_DURATION t)) = 60"
    using tic_of_length[OF t] by (simp add: INPUT_DURATION_def length_concat sum_list_replicate)
  then show ?case using Cons t by (simp add: lmp_tics_def)
qed

lemma lmp_tics_record:
  assumes "set xs \<subseteq> set ''wasdqe''" "i < length xs" "j < 15"
  shows "take 4 (drop (60 * i + 4 * j) (lmp_tics xs @ rest)) = the (tic_of (xs ! i))"
  using assms
proof (induction xs arbitrary: i)
  case Nil
  then show ?case by simp
next
  case (Cons c xs)
  then obtain t where t: "tic_of c = Some t" using tic_of_valid[of c] by auto
  have lt: "length t = 4" using tic_of_length[OF t] .
  have lc: "length (concat (replicate INPUT_DURATION t)) = 60"
    using lt by (simp add: INPUT_DURATION_def length_concat sum_list_replicate)
  have unf: "lmp_tics (c # xs) = concat (replicate INPUT_DURATION t) @ lmp_tics xs"
    using t by (simp add: lmp_tics_def)
  show ?case
  proof (cases i)
    case 0
    have rep: "\<And>k m. j = m \<Longrightarrow> m < k \<Longrightarrow> take 4 (drop (4 * m) (concat (replicate k t) @ rest')) = t" for rest'
    proof -
      fix k m show "j = m \<Longrightarrow> m < k \<Longrightarrow> take 4 (drop (4 * m) (concat (replicate k t) @ rest')) = t"
      proof (induction k arbitrary: m j)
        case 0 then show ?case by simp
      next
        case (Suc k)
        show ?case
        proof (cases m)
          case 0 then show ?thesis using lt by simp
        next
          case (Suc m')
          then have "take 4 (drop (4 * m') (concat (replicate k t) @ rest')) = t"
            using Suc.IH[of m' m'] Suc.prems by simp
          then show ?thesis using Suc lt by simp
        qed
      qed
    qed
    have "take 4 (drop (4 * j) (concat (replicate INPUT_DURATION t) @ (lmp_tics xs @ rest))) = t"
      using Cons.prems(3) by (intro rep[of j]) (simp_all add: INPUT_DURATION_def)
    then show ?thesis using 0 t unf by simp
  next
    case (Suc i')
    have "take 4 (drop (60 * i' + 4 * j) (lmp_tics xs @ rest)) = the (tic_of (xs ! i'))"
      using Cons.prems Suc by (intro Cons.IH) auto
    then show ?thesis using Suc unf lc by simp
  qed
qed

text \<open>
  Claim C7.  For every token string over the alphabet \<open>{w,a,s,d,q,e}\<close> and all integer
  episode and map values, \<open>forgeDemo\<close> returns a buffer: every \<open>e\<close> of the input counts
  three times in the expanded string and every other token once; the buffer has exactly
  \<open>14 + 60 * n\<close> bytes for \<open>n\<close> expanded tokens; its first 13 bytes are version 109,
  skill 0, the episode and the map as bytes (read back unchanged when they fit a signed
  byte), and the single-player flags; for every expanded character there are 15 identical
  4-byte records holding that token's forward/back delta, turn delta and action bitmask;
  and the last byte is \<open>0x80\<close>.
\<close>

theorem forgeDemo_layout_bytes:
  assumes "set inputs \<subseteq> set ''wasdqe''"
  shows "\<exists>buffer.
     forgeDemo inputs (Num episode) (Num map') = Inr buffer
   \<and> replaceAll_e inputs = concat (map (\<lambda>c. if c = CHR ''e'' then ''eee'' else [c]) inputs)
   \<and> length (replaceAll_e inputs) = length inputs + 2 * count_list inputs (CHR ''e'')
   \<and> length buffer = 14 + 60 * length (replaceAll_e inputs)
   \<and> take 13 buffer = [109, 0, word_of_int episode, word_of_int map', 0, 0, 0, 0, 0, 1, 0, 0, 0]
   \<and> (- 128 \<le> episode \<and> episode < 128 \<longrightarrow> sint (buffer ! 2) = episode)
   \<and> (- 128 \<le> map' \<and> map' < 128 \<longrightarrow> sint (buffer ! 3) = map')
   \<and> (\<forall>i < length (replaceAll_e inputs). \<forall>j < INPUT_DURATION.
         take 4 (drop (13 + 60 * i + 4 * j) buffer)
           = [forwardmove (replaceAll_e inputs ! i), 0, angleturn (replaceAll_e inputs ! i),
              buttons (replaceAll_e inputs ! i)])
   \<and> last buffer = 0x80"
proof -
  let ?x = "replaceAll_e inputs"
  let ?buf = "lmp_layout inputs (Num episode) (Num map')"
  have x: "set ?x \<subseteq> set ''wasdqe''" using assms by (rule replaceAll_e_alphabet)
  have run: "forgeDemo inputs (Num episode) (Num map') = Inr ?buf"
    using assms by (rule forgeDemo_layout)
  have len: "length ?buf = 14 + 60 * length ?x"
    using length_lmp_tics[OF x] by (simp add: lmp_layout_def lmp_header_def)
  have hd: "take 13 ?buf = [109, 0, word_of_int episode, word_of_int map', 0, 0, 0, 0, 0, 1, 0, 0, 0]"
    by (simp add: lmp_layout_def lmp_header_def)
  have ep: "?buf ! 2 = word_of_int episode" and mp: "?buf ! 3 = word_of_int map'"
    by (simp_all add: lmp_layout_def lmp_header_def)
  have sep: "- 128 \<le> episode \<and> episode < 128 \<longrightarrow> sint (?buf ! 2) = episode"
    unfolding ep by (simp add: sint_sbintrunc' signed_take_bit_int_eq_self)
  have smp: "- 128 \<le> map' \<and> map' < 128 \<longrightarrow> sint (?buf ! 3) = map'"
    unfolding mp by (simp add: sint_sbintrunc' signed_take_bit_int_eq_self)
  have recs: "\<forall>i < length ?x. \<forall>j < INPUT_DURATION.
         take 4 (drop (13 + 60 * i + 4 * j) ?buf)
           = [forwardmove (?x ! i), 0, angleturn (?x ! i), buttons (?x ! i)]"
  proof (intro allI impI)
    fix i j assume i: "i < length ?x" and j: "j < INPUT_DURATION"
    have "?x ! i \<in> set ''wasdqe''" using x i by (meson nth_mem subsetD)
    then have t: "tic_of (?x ! i) = Some [forwardmove (?x ! i), 0, angleturn (?x ! i), buttons (?x ! i)]"
      by (rule tic_of_fields)
    have lh: "length (lmp_header (Num episode) (Num map')) = 13"
      by (simp add: lmp_header_def)
    have "drop (13 + 60 * i + 4 * j) ?buf = drop (60 * i + 4 * j) (lmp_tics ?x @ [0x80])"
      unfolding lmp_layout_def by (simp add: lh add.assoc)
    then have "take 4 (drop (13 + 60 * i + 4 * j) ?buf) = the (tic_of (?x ! i))"
      using lmp_tics_record[OF x i, of j "[0x80]"] j by (simp add: INPUT_DURATION_def)
    then show "take 4 (drop (13 + 60 * i + 4 * j) ?buf)
           = [forwardmove (?x ! i), 0, angleturn (?x ! i), buttons (?x ! i)]"
      using t by simp
  qed
  have lst: "last ?buf = 0x80" by (simp add: lmp_layout_def)
  show ?thesis
    using run replaceAll_e_def[of inputs] length_replaceAll_e len hd sep smp recs lst by blast
qed

theorem forgeDemo_layout_bytes_witness:
  "set ''we'' \<subseteq> set ''wasdqe'' \<and>
   (\<exists>buffer. forgeDemo ''we'' (Num 2) (Num 3) = Inr buffer
      \<and> length buffer = 254
      \<and> take 13 buffer = [109, 0, 2, 3, 0, 0, 0, 0, 0, 1, 0, 0, 0]
      \<and> take 4 (drop (13 + 60 * 0 + 4 * 14) buffer) = [50, 0, 0, 0]
      \<and> take 4 (drop (13 + 60 * 3 + 4 * 14) buffer) = [0, 0, 0, 2]
      \<and> last buffer = 0x80)"
proof -
  have a: "set ''we'' \<subseteq> set ''wasdqe''" by simp
  have x: "replaceAll_e ''we'' = ''weee''" by (simp add: replaceAll_e_def)
  from forgeDemo_layout_bytes[OF a, of 2 3] obtain buffer where
    b: "forgeDemo ''we'' (Num 2) (Num 3) = Inr buffer"
       "length buffer = 14 + 60 * length (replaceAll_e ''we'')"
       "take 13 buffer = [109, 0, word_of_int 2, word_of_int 3, 0, 0, 0, 0, 0, 1, 0, 0, 0]"
       "\<forall>i < length (replaceAll_e ''we''). \<forall>j < INPUT_DURATION.
         take 4 (drop (13 + 60 * i + 4 * j) buffer)
           = [forwardmove (replaceAll_e ''we'' ! i), 0, angleturn (replaceAll_e ''we'' ! i),
              buttons (replaceAll_e ''we'' ! i)]"
       "last buffer = 0x80"
    by blast
  have r0: "take 4 (drop (13 + 60 * 0 + 4 * 14) buffer) = [50, 0, 0, 0]"
    using b(4)[rule_format, of 0 14]
    by (simp add: x INPUT_DURATION_def forwardmove_def angleturn_def buttons_def)
  have r3: "take 4 (drop (13 + 60 * 3 + 4 * 14) buffer) = [0, 0, 0, 2]"
    using b(4)[rule_format, of 3 14]
    by (simp add: x INPUT_DURATION_def forwardmove_def angleturn_def buttons_def)
  show ?thesis using a b(1,2,3,5) r0 r3 by (simp add: x)
qed

section \<open>The encoder in memory computes the encoder on values\<close>

text \<open>
  While \<open>tic\<close> is \<open>undefined\<close> the first \<open>buffer.set\<close> throws, on values as in memory.
\<close>

lemma tic_loop_None: "js \<noteq> [] \<Longrightarrow> tic_loop None i js buffer = Inl (JsError ''TypeError'')"
  by (cases js) (simp_all add: buffer_set_def)

lemma tic_loop_in_None: "js \<noteq> [] \<Longrightarrow> tic_loop_in buffer None i js m = (Some (JsError ''TypeError''), m)"
  by (cases js) (simp_all add: set_from_def buffer_set_def)

lemma tic_loop_in_sim:
  assumes "buffer < length (arrays m)" "t < length (arrays m)" "t \<noteq> buffer"
  shows "\<exists>bytes. snd (tic_loop_in buffer (Some t) i js m) = m\<lparr>arrays := (arrays m)[buffer := bytes]\<rparr>
           \<and> (case fst (tic_loop_in buffer (Some t) i js m) of
                 None \<Rightarrow> tic_loop (Some (arrays m ! t)) i js (arrays m ! buffer) = Inr bytes
               | Some e \<Rightarrow> tic_loop (Some (arrays m ! t)) i js (arrays m ! buffer) = Inl e)"
  using assms
proof (induction js arbitrary: m)
  case Nil
  have "m = m\<lparr>arrays := (arrays m)[buffer := arrays m ! buffer]\<rparr>" by simp
  then show ?case by (intro exI[of _ "arrays m ! buffer"]) simp
next
  case (Cons j js)
  let ?off = "13 + i * INPUT_DURATION * 4 + j * 4"
  show ?case
  proof (cases "buffer_set (arrays m ! buffer) (Some (arrays m ! t)) ?off")
    case (Inl e)
    have "m = m\<lparr>arrays := (arrays m)[buffer := arrays m ! buffer]\<rparr>" by simp
    then show ?thesis using Inl
      by (intro exI[of _ "arrays m ! buffer"]) (simp add: set_from_def)
  next
    case (Inr b1)
    let ?m1 = "m\<lparr>arrays := (arrays m)[buffer := b1]\<rparr>"
    have pre: "buffer < length (arrays ?m1)" "t < length (arrays ?m1)"
      using Cons.prems by simp_all
    have rd: "arrays ?m1 ! t = arrays m ! t" "arrays ?m1 ! buffer = b1"
      using Cons.prems by simp_all
    from Cons.IH[OF pre Cons.prems(3)] obtain bytes where
      ih: "snd (tic_loop_in buffer (Some t) i js ?m1) = ?m1\<lparr>arrays := (arrays ?m1)[buffer := bytes]\<rparr>"
          "(case fst (tic_loop_in buffer (Some t) i js ?m1) of
                 None \<Rightarrow> tic_loop (Some (arrays ?m1 ! t)) i js (arrays ?m1 ! buffer) = Inr bytes
               | Some e \<Rightarrow> tic_loop (Some (arrays ?m1 ! t)) i js (arrays ?m1 ! buffer) = Inl e)"
      by blast
    have step: "tic_loop_in buffer (Some t) i (j # js) m = tic_loop_in buffer (Some t) i js ?m1"
      using Inr by (simp add: set_from_def)
    have pure: "tic_loop (Some (arrays m ! t)) i (j # js) (arrays m ! buffer)
                  = tic_loop (Some (arrays m ! t)) i js b1"
      using Inr by simp
    show ?thesis
      unfolding step pure using ih unfolding rd
      by (intro exI[of _ bytes]) simp
  qed
qed

lemma input_loop_in_sim:
  assumes "buffer < length (arrays m)"
  shows "\<exists>bytes tics. snd (input_loop_in buffer inputs is m) = m\<lparr>arrays := (arrays m)[buffer := bytes] @ tics\<rparr>
           \<and> (case fst (input_loop_in buffer inputs is m) of
                 None \<Rightarrow> input_loop inputs is (arrays m ! buffer) = Inr bytes
               | Some e \<Rightarrow> input_loop inputs is (arrays m ! buffer) = Inl e)"
  using assms
proof (induction "is" arbitrary: m)
  case Nil
  have "m = m\<lparr>arrays := (arrays m)[buffer := arrays m ! buffer] @ []\<rparr>" by simp
  then show ?case by (intro exI[of _ "arrays m ! buffer"] exI[of _ "[]"]) simp
next
  case (Cons i "is")
  have nz: "[0..<INPUT_DURATION] \<noteq> []" by (simp add: INPUT_DURATION_def)
  show ?case
  proof (cases "tic_of (inputs ! i)")
    case None
    have "m = m\<lparr>arrays := (arrays m)[buffer := arrays m ! buffer] @ []\<rparr>" by simp
    then show ?thesis
      using None tic_loop_in_None[OF nz] tic_loop_None[OF nz]
      by (intro exI[of _ "arrays m ! buffer"] exI[of _ "[]"]) (simp add: new_tic_def)
  next
    case (Some tb)
    let ?t = "length (arrays m)"
    let ?m1 = "m\<lparr>arrays := arrays m @ [tb]\<rparr>"
    have nt: "new_tic (inputs ! i) m = (Some ?t, ?m1)"
      using Some by (simp add: new_tic_def new_Int8Array_def)
    have pre: "buffer < length (arrays ?m1)" "?t < length (arrays ?m1)" "?t \<noteq> buffer"
      using Cons.prems by simp_all
    have rd: "arrays ?m1 ! ?t = tb" "arrays ?m1 ! buffer = arrays m ! buffer"
      using Cons.prems by (simp_all add: nth_append)
    from tic_loop_in_sim[OF pre, of i "[0..<INPUT_DURATION]"] obtain b1 where
      tl: "snd (tic_loop_in buffer (Some ?t) i [0..<INPUT_DURATION] ?m1) = ?m1\<lparr>arrays := (arrays ?m1)[buffer := b1]\<rparr>"
          "(case fst (tic_loop_in buffer (Some ?t) i [0..<INPUT_DURATION] ?m1) of
                 None \<Rightarrow> tic_loop (Some tb) i [0..<INPUT_DURATION] (arrays m ! buffer) = Inr b1
               | Some e \<Rightarrow> tic_loop (Some tb) i [0..<INPUT_DURATION] (arrays m ! buffer) = Inl e)"
      unfolding rd by blast
    let ?m2 = "m\<lparr>arrays := (arrays m)[buffer := b1] @ [tb]\<rparr>"
    have m2: "?m1\<lparr>arrays := (arrays ?m1)[buffer := b1]\<rparr> = ?m2"
      using Cons.prems by (simp add: list_update_append1)
    show ?thesis
    proof (cases "fst (tic_loop_in buffer (Some ?t) i [0..<INPUT_DURATION] ?m1)")
      case (Some e)
      then have r: "tic_loop_in buffer (Some ?t) i [0..<INPUT_DURATION] ?m1 = (Some e, ?m2)"
        using tl(1) m2 by (metis prod.collapse)
      have p: "tic_loop (Some tb) i [0..<INPUT_DURATION] (arrays m ! buffer) = Inl e"
        using tl(2) Some by simp
      show ?thesis
        using nt r p \<open>tic_of (inputs ! i) = Some tb\<close>
        by (intro exI[of _ b1] exI[of _ "[tb]"]) simp
    next
      case None
      then have r: "tic_loop_in buffer (Some ?t) i [0..<INPUT_DURATION] ?m1 = (None, ?m2)"
        using tl(1) m2 by (metis prod.collapse)
      have p: "tic_loop (Some tb) i [0..<INPUT_DURATION] (arrays m ! buffer) = Inr b1"
        using tl(2) None by simp
      have pre2: "buffer < length (arrays ?m2)" using Cons.prems by simp
      have rd2: "arrays ?m2 ! buffer = b1" using Cons.prems by (simp add: nth_append)
      from Cons.IH[OF pre2] obtain bytes tics where
        ih: "snd (input_loop_in buffer inputs is ?m2) = ?m2\<lparr>arrays := (arrays ?m2)[buffer := bytes] @ tics\<rparr>"
            "(case fst (input_loop_in buffer inputs is ?m2) of
                 None \<Rightarrow> input_loop inputs is b1 = Inr bytes
               | Some e \<Rightarrow> input_loop inputs is b1 = Inl e)"
        unfolding rd2 by blast
      have fin: "?m2\<lparr>arrays := (arrays ?m2)[buffer := bytes] @ tics\<rparr>
                  = m\<lparr>arrays := (arrays m)[buffer := bytes] @ (tb # tics)\<rparr>"
        using Cons.prems by (simp add: list_update_append1)
      have step: "input_loop_in buffer inputs (i # is) m = input_loop_in buffer inputs is ?m2"
        using nt r by simp
      have pure: "input_loop inputs (i # is) (arrays m ! buffer) = input_loop inputs is b1"
        using p \<open>tic_of (inputs ! i) = Some tb\<close> by simp
      show ?thesis
        unfolding step pure using ih unfolding fin
        by (intro exI[of _ bytes] exI[of _ "tb # tics"]) simp
    qed
  qed
qed

text \<open>
  The whole function: it leaves the memory as it was, but for one new array (the buffer)
  followed by the arrays of the tics, and what the caller gets is what \<open>forgeDemo\<close>
  computes on values.
\<close>

lemma forgeDemo_in_sim:
  "\<exists>bytes tics. snd (forgeDemo_in inputs episode map' m) = m\<lparr>arrays := arrays m @ bytes # tics\<rparr>
      \<and> (case fst (forgeDemo_in inputs episode map' m) of
            Inr buffer \<Rightarrow> buffer = length (arrays m) \<and> forgeDemo inputs episode map' = Inr bytes
          | Inl e \<Rightarrow> forgeDemo inputs episode map' = Inl e)"
proof -
  let ?inputs = "replaceAll_e inputs"
  let ?n = "14 + length ?inputs * INPUT_DURATION * 4"
  let ?a = "length (arrays m)"
  define B0 where "B0 = (replicate ?n (0 :: int8))
      [0 := 109, 1 := 0, 2 := toInt8 episode, 3 := toInt8 map', 4 := 0, 5 := 0, 6 := 0, 7 := 0, 8 := 0,
       9 := 1, 10 := 0, 11 := 0, 12 := 0, ?n - 1 := 0x80]"
  let ?m0 = "m\<lparr>arrays := arrays m @ [B0]\<rparr>"
  have run: "forgeDemo_in inputs episode map' m =
      (case input_loop_in ?a ?inputs [0..<length ?inputs] ?m0 of
         (Some e, m') \<Rightarrow> (Inl e, m')
       | (None, m') \<Rightarrow> (Inr ?a, m'))"
    by (simp add: forgeDemo_in_def new_Int8Array_def store_byte_def Let_def B0_def)
  have pure: "forgeDemo inputs episode map' = input_loop ?inputs [0..<length ?inputs] B0"
    by (simp add: forgeDemo_def Let_def B0_def)
  have pre: "?a < length (arrays ?m0)" by simp
  have rd: "arrays ?m0 ! ?a = B0" by simp
  from input_loop_in_sim[OF pre, of ?inputs "[0..<length ?inputs]"] obtain bytes tics where
    s: "snd (input_loop_in ?a ?inputs [0..<length ?inputs] ?m0)
          = ?m0\<lparr>arrays := (arrays ?m0)[?a := bytes] @ tics\<rparr>"
       "(case fst (input_loop_in ?a ?inputs [0..<length ?inputs] ?m0) of
           None \<Rightarrow> input_loop ?inputs [0..<length ?inputs] B0 = Inr bytes
         | Some e \<Rightarrow> input_loop ?inputs [0..<length ?inputs] B0 = Inl e)"
    unfolding rd by blast
  have mem: "?m0\<lparr>arrays := (arrays ?m0)[?a := bytes] @ tics\<rparr> = m\<lparr>arrays := arrays m @ bytes # tics\<rparr>"
    by simp
  obtain r m' where rm: "input_loop_in ?a ?inputs [0..<length ?inputs] ?m0 = (r, m')"
    by (cases "input_loop_in ?a ?inputs [0..<length ?inputs] ?m0")
  have m': "m' = m\<lparr>arrays := arrays m @ bytes # tics\<rparr>"
    using s(1) rm mem by simp
  show ?thesis
  proof (cases r)
    case None
    then show ?thesis
      using s(2) rm m' unfolding run pure by (intro exI[of _ bytes] exI[of _ tics]) simp
  next
    case (Some e)
    then show ?thesis
      using s(2) rm m' unfolding run pure by (intro exI[of _ bytes] exI[of _ tics]) simp
  qed
qed

lemma forgeDemo_in_value:
  "returned (forgeDemo_in inputs episode map' m) = forgeDemo inputs episode map'"
proof -
  from forgeDemo_in_sim[of inputs episode map' m] obtain bytes tics where
    s: "snd (forgeDemo_in inputs episode map' m) = m\<lparr>arrays := arrays m @ bytes # tics\<rparr>"
       "(case fst (forgeDemo_in inputs episode map' m) of
            Inr buffer \<Rightarrow> buffer = length (arrays m) \<and> forgeDemo inputs episode map' = Inr bytes
          | Inl e \<Rightarrow> forgeDemo inputs episode map' = Inl e)"
    by blast
  obtain r m' where rm: "forgeDemo_in inputs episode map' m = (r, m')"
    by (cases "forgeDemo_in inputs episode map' m")
  show ?thesis
    using s rm by (cases r) (simp_all add: returned_def)
qed

text \<open>
  Claim C9.  \<open>forgeDemo\<close> is pure and deterministic.  Called in any two memories of the
  process with the same tokens, episode and map, it returns byte-identical buffers, or
  throws the same error: the result depends neither on the arrays allocated before, nor on
  the files, the logs and the counters of the server, nor on the clock, nor on the random
  generator.  It has no effect on what was there: the arrays allocated before the call
  hold what they held, nothing but the list of arrays has changed, and the buffer it
  returns is a new array.  With \<open>m2\<close> the memory that the first call leaves, these are two
  calls in a row (lemma \<open>forgeDemo_twice\<close>).
\<close>

theorem forgeDemo_deterministic:
  "returned (forgeDemo_in inputs episode map' m1) = returned (forgeDemo_in inputs episode map' m2)
   \<and> (\<exists>new. arrays (snd (forgeDemo_in inputs episode map' m1)) = arrays m1 @ new)
   \<and> (snd (forgeDemo_in inputs episode map' m1))\<lparr>arrays := arrays m1\<rparr> = m1
   \<and> (fst (forgeDemo_in inputs episode map' m1) = Inr (length (arrays m1))
        \<or> (\<exists>e. fst (forgeDemo_in inputs episode map' m1) = Inl e))"
proof -
  have same: "returned (forgeDemo_in inputs episode map' m1) = returned (forgeDemo_in inputs episode map' m2)"
    by (simp add: forgeDemo_in_value)
  from forgeDemo_in_sim[of inputs episode map' m1] obtain bytes tics where
    s: "snd (forgeDemo_in inputs episode map' m1) = m1\<lparr>arrays := arrays m1 @ bytes # tics\<rparr>"
       "(case fst (forgeDemo_in inputs episode map' m1) of
            Inr buffer \<Rightarrow> buffer = length (arrays m1) \<and> forgeDemo inputs episode map' = Inr bytes
          | Inl e \<Rightarrow> forgeDemo inputs episode map' = Inl e)"
    by blast
  have grow: "\<exists>new. arrays (snd (forgeDemo_in inputs episode map' m1)) = arrays m1 @ new"
    unfolding s(1) by simp
  have frame: "(snd (forgeDemo_in inputs episode map' m1))\<lparr>arrays := arrays m1\<rparr> = m1"
    unfolding s(1) by simp
  have fresh: "fst (forgeDemo_in inputs episode map' m1) = Inr (length (arrays m1))
        \<or> (\<exists>e. fst (forgeDemo_in inputs episode map' m1) = Inl e)"
    using s(2) by (cases "fst (forgeDemo_in inputs episode map' m1)") simp_all
  show ?thesis using same grow frame fresh by blast
qed

text \<open>
  Two calls in a row return two different arrays with the same bytes; the second call
  does not touch the buffer of the first.
\<close>

lemma forgeDemo_twice:
  assumes "forgeDemo_in inputs episode map' m = (Inr b1, m')"
    and "forgeDemo_in inputs episode map' m' = (Inr b2, m'')"
  shows "b1 \<noteq> b2 \<and> arrays m'' ! b1 = arrays m' ! b1 \<and> arrays m'' ! b2 = arrays m' ! b1"
proof -
  from forgeDemo_in_sim[of inputs episode map' m] assms(1) obtain bytes tics where
    1: "m' = m\<lparr>arrays := arrays m @ bytes # tics\<rparr>" "b1 = length (arrays m)"
    by auto
  from forgeDemo_in_sim[of inputs episode map' m'] assms(2) obtain bytes' tics' where
    2: "m'' = m'\<lparr>arrays := arrays m' @ bytes' # tics'\<rparr>" "b2 = length (arrays m')"
    by auto
  have v1: "Inr (arrays m' ! b1) = forgeDemo inputs episode map'"
    using forgeDemo_in_value[of inputs episode map' m] assms(1) by (simp add: returned_def)
  have v2: "Inr (arrays m'' ! b2) = forgeDemo inputs episode map'"
    using forgeDemo_in_value[of inputs episode map' m'] assms(2) by (simp add: returned_def)
  have lt: "b1 < length (arrays m')" using 1 by simp
  have "b1 \<noteq> b2" using lt 2(2) by simp
  moreover have "arrays m'' ! b1 = arrays m' ! b1"
    using lt 2(1) by (simp add: nth_append)
  moreover have "arrays m'' ! b2 = arrays m' ! b1"
    using v1 v2 by (metis Inr_inject)
  ultimately show ?thesis by simp
qed

section \<open>Prefixes of paths\<close>

lemma startsWith_append_same [simp]: "startsWith (p @ x) (p @ y) = startsWith x y"
  by (induction p) simp_all

lemma startsWith_length: "startsWith s p \<Longrightarrow> length p \<le> length s"
  by (induction s p rule: startsWith.induct) simp_all

section \<open>Properties of the eviction\<close>

lemma delete_oldest_log:
  "rm_log (fst (delete_oldest d parentDir oldest s)) = rm_log s @ [(oldest, rm d (fullPath oldest) = None)]"
  by (simp add: delete_oldest_def split: option.splits sum.splits)


lemma delete_loop_log:
  "\<exists>n. rm_log (delete_loop d parentDir dirs s)
        = rm_log s @ map (\<lambda>x. (x, rm d (fullPath x) = None)) (take n dirs)"
proof (induction dirs arbitrary: s)
  case Nil
  then show ?case by simp
next
  case (Cons oldest dirs)
  obtain s' b where step: "delete_oldest d parentDir oldest s = (s', b)"
    by (cases "delete_oldest d parentDir oldest s")
  have log: "rm_log s' = rm_log s @ [(oldest, rm d (fullPath oldest) = None)]"
    using delete_oldest_log[of d parentDir oldest s] step by simp
  show ?case
  proof (cases b)
    case True
    then have "rm_log (delete_loop d parentDir (oldest # dirs) s)
        = rm_log s @ map (\<lambda>x. (x, rm d (fullPath x) = None)) (take (Suc 0) (oldest # dirs))"
      using step log by simp
    then show ?thesis by blast
  next
    case False
    from Cons.IH[of s'] obtain n where
      "rm_log (delete_loop d parentDir dirs s') = rm_log s' @ map (\<lambda>x. (x, rm d (fullPath x) = None)) (take n dirs)"
      by blast
    then have "rm_log (delete_loop d parentDir (oldest # dirs) s)
        = rm_log s @ map (\<lambda>x. (x, rm d (fullPath x) = None)) (take (Suc n) (oldest # dirs))"
      using step log False by simp
    then show ?thesis by blast
  qed
qed


lemma scan_entries_evictable:
  "x \<in> set (scan_entries d parentDir entries) \<Longrightarrow>
   \<exists>entry \<in> set entries. isDirectory entry \<and> length (name entry) > CACHE_DEPTH_THRESHOLD + 2
      \<and> fullPath x = parentDir @ ''/'' @ name entry \<and> stat d (fullPath x) = Inr (birthtime x)"
  by (induction entries) (auto split: if_splits sum.splits)

lemma clearOldCache_log:
  assumes "clearOldCache d parentDir = Inr s"
  shows "rm_log s = [] \<or>
         (\<exists>entries n. readdir d parentDir = Inr entries \<and>
            rm_log s = map (\<lambda>x. (x, rm d (fullPath x) = None))
                        (take n (sort_key birthtime (scan_entries d parentDir entries))))"
proof (cases "checkSync d parentDir 0")
  case (Inl e)
  then show ?thesis using assms by (simp add: clearOldCache_def)
next
  case (Inr free0)
  show ?thesis
  proof (cases "free0 > CACHE_CLEAR_HIGH_THRESHOLD")
    case True
    then show ?thesis using assms Inr by (auto simp: clearOldCache_def)
  next
    case False
    show ?thesis
    proof (cases "readdir d parentDir")
      case (Inl e)
      then show ?thesis using assms Inr False by (simp add: clearOldCache_def)
    next
      case r: (Inr entries)
      show ?thesis
      proof (cases "scan_entries d parentDir entries = []")
        case True
        then show ?thesis using assms Inr False r by (auto simp: clearOldCache_def)
      next
        case ne: False
        let ?init = "\<lparr>probes = 1, free = free0, rm_log = []\<rparr>"
        have s: "s = delete_loop d parentDir (sort_key birthtime (scan_entries d parentDir entries)) ?init"
          using assms Inr False r ne by (simp add: clearOldCache_def Let_def)
        from delete_loop_log[of d parentDir "sort_key birthtime (scan_entries d parentDir entries)" ?init]
        show ?thesis unfolding s using r by auto
      qed
    qed
  qed
qed

text \<open>
  Claim C1.  A cache entry whose directory name has at most \<open>CACHE_DEPTH_THRESHOLD + 2\<close>
  characters (a sequence of at most 5 tokens after the two characters of episode and map)
  is never deleted by \<open>clearOldCache\<close>, whatever the disk probe, the listing, \<open>stat\<close> and
  \<open>rm\<close> answer: its path is never handed to \<open>fs.rm\<close>, and it does not lie under any
  path that is (the removal is recursive).
\<close>

theorem clearOldCache_keeps_shallow:
  assumes "length nm \<le> CACHE_DEPTH_THRESHOLD + 2"
  shows "parentDir @ ''/'' @ nm \<notin> set (rm_calls d parentDir)
       \<and> (\<forall>p \<in> set (rm_calls d parentDir). \<not> under p (parentDir @ ''/'' @ nm))"
proof -
  have "\<not> under p (parentDir @ ''/'' @ nm)" if mem: "p \<in> set (rm_calls d parentDir)" for p
  proof -
    from mem obtain s where s: "clearOldCache d parentDir = Inr s"
      and m: "p \<in> set (map (fullPath \<circ> fst) (rm_log s))"
      by (cases "clearOldCache d parentDir") (simp_all add: rm_calls_def)
    then have "rm_log s \<noteq> []" by auto
    with clearOldCache_log[OF s] obtain entries n where
      log: "rm_log s = map (\<lambda>x. (x, rm d (fullPath x) = None))
                          (take n (sort_key birthtime (scan_entries d parentDir entries)))"
      by blast
    from m obtain x where x: "x \<in> set (take n (sort_key birthtime (scan_entries d parentDir entries)))"
      and fx: "fullPath x = p"
      unfolding log by auto
    from x have "x \<in> set (scan_entries d parentDir entries)"
      by (auto dest: in_set_takeD)
    from scan_entries_evictable[OF this] obtain entry :: dirent where
      long: "length (name entry) > CACHE_DEPTH_THRESHOLD + 2" and p: "p = parentDir @ ''/'' @ name entry"
      using fx by blast
    show ?thesis
    proof
      assume "under p (parentDir @ ''/'' @ nm)"
      then consider "parentDir @ ''/'' @ nm = p" | "startsWith (parentDir @ ''/'' @ nm) (p @ ''/'')"
        by (auto simp: under_def)
      then show False
      proof cases
        case 1
        then show False using p long assms by simp
      next
        case 2
        then have "startsWith nm (name entry @ ''/'')"
          unfolding p using startsWith_append_same[of "parentDir @ ''/''" nm "name entry @ ''/''"] by simp
        from startsWith_length[OF this] show False using long assms by simp
      qed
    qed
  qed
  then show ?thesis by (auto simp: under_def)
qed

lemma pressure_disk_run:
  "clearOldCache pressure_disk ''cache'' =
     Inr \<lparr>probes = 2, free = 3 * 1024 * 1024 * 1024,
          rm_log = [(\<lparr>fullPath = ''cache/11wwwwwwww'', birthtime = 1\<rparr>, True)]\<rparr>"
  by (simp add: clearOldCache_def pressure_disk_def CACHE_CLEAR_HIGH_THRESHOLD_def
      CACHE_DEPTH_THRESHOLD_def delete_oldest_def CACHE_CLEAR_LOW_THRESHOLD_def)

theorem clearOldCache_keeps_shallow_witness:
  "length ''11www'' \<le> CACHE_DEPTH_THRESHOLD + 2 \<and>
   ''cache/11www'' \<notin> set (rm_calls pressure_disk ''cache'') \<and>
   rm_calls pressure_disk ''cache'' = [''cache/11wwwwwwww'']"
proof -
  have a: "length ''11www'' \<le> CACHE_DEPTH_THRESHOLD + 2"
    by (simp add: CACHE_DEPTH_THRESHOLD_def)
  from clearOldCache_keeps_shallow[OF a, of "''cache''" pressure_disk]
  have "''cache/11www'' \<notin> set (rm_calls pressure_disk ''cache'')" by simp
  moreover have "rm_calls pressure_disk ''cache'' = [''cache/11wwwwwwww'']"
    by (simp add: rm_calls_def pressure_disk_run)
  ultimately show ?thesis using a by simp
qed

text \<open>
  Claim C4 says that \<open>clearOldCache\<close> never raises.  The first disk probe and the
  directory listing are outside every \<open>try\<close>: on a cache directory that cannot be probed,
  and on one that cannot be listed while space is short, the error leaves the function.
\<close>

theorem clearOldCache_raises:
  "clearOldCache probe_throws_disk ''cache'' = Inl (JsError ''ENOENT'') \<and>
   clearOldCache readdir_throws_disk ''cache'' = Inl (JsError ''EMFILE'')"
  by (simp add: clearOldCache_def probe_throws_disk_def readdir_throws_disk_def
      CACHE_CLEAR_HIGH_THRESHOLD_def)

text \<open>
  Errors of \<open>stat\<close>, of \<open>fs.rm\<close> and of the probes inside the loop are swallowed: once the
  first probe and the listing have answered, the function returns.
\<close>

lemma clearOldCache_returns:
  assumes "checkSync d parentDir 0 = Inr free0"
    and "free0 > CACHE_CLEAR_HIGH_THRESHOLD \<or> readdir d parentDir = Inr entries"
  shows "\<exists>s. clearOldCache d parentDir = Inr s"
  using assms by (auto simp: clearOldCache_def Let_def split: sum.splits)




section \<open>Properties of the request handler\<close>

subsection \<open>Paths, operations and the scratch directory\<close>


lemma files_perform [simp]: "files (perform op w) = apply_op op (files w)"
  and history_perform [simp]: "history (perform op w) = history w @ [op]"
  and errors_log_perform [simp]: "errors_log (perform op w) = errors_log w"
  and requestCount_perform [simp]: "requestCount (perform op w) = requestCount w"
  and renderCount_perform [simp]: "renderCount (perform op w) = renderCount w"
  by (simp_all add: perform_def)

lemma history_fold_perform [simp]: "history (fold perform ops w) = history w @ ops"
  by (induction ops arbitrary: w) simp_all

lemma errors_log_fold_perform [simp]: "errors_log (fold perform ops w) = errors_log w"
  by (induction ops arbitrary: w) simp_all

lemma requestCount_fold_perform [simp]: "requestCount (fold perform ops w) = requestCount w"
  by (induction ops arbitrary: w) simp_all

lemma createTempDir_Some:
  "createTempDir dir names fault w = Some (Inr (tmp, w1)) \<Longrightarrow>
   (\<exists>n \<in> set names. tmp = dir @ ''/tmp/'' @ n) \<and> tmp \<notin> files w \<and> dir @ ''/tmp'' \<in> files w
     \<and> fault = None \<and> w1 = perform (Mkdir tmp) w"
  by (induction names)
     (auto simp: Let_def fs_exists_def fs_mkdir_def split: if_splits option.splits sum.splits)

lemma decode_inputs_alphabet:
  "decode_inputs path = (episode, map', inputs) \<Longrightarrow> inputs \<noteq> [] \<and> set inputs \<subseteq> set ''wasdqe''"
  by (auto simp: decode_inputs_def Let_def split: if_splits prod.splits)

subsection \<open>Decoding\<close>

text \<open>The path \<open>/wwwi.webp\<close> of the spec: no numeric prefix, three tokens.\<close>

lemma decode_example: "decode_inputs ''/wwwi.webp'' = (Num 1, Num 1, ''www'')"
  by (simp add: decode_inputs_def slice_def toLowerCase_def isNaN_short_def trim_def isWhiteSpace_def
      isDigit_def digit_value_def)

text \<open>
  Two digits in front are consumed as episode and map, whatever their values, and clamped
  into \<open>[1,3]\<close> and \<open>[1,8]\<close>.
\<close>

lemma toLowerCase_digit: "isDigit c \<Longrightarrow> toLowerCase (c # s) = c # toLowerCase s"
  by (auto simp: toLowerCase_def isDigit_def digit_value_def split: if_splits)

lemma digit_not_ws: "isDigit c \<Longrightarrow> \<not> isWhiteSpace c"
  by (auto simp: isWhiteSpace_def isDigit_def digit_value_def split: if_splits)

lemma decode_two_digits:
  assumes "digit_value c1 = Some d1" "digit_value c2 = Some d2"
  shows "decode_inputs (''/'' @ c1 # c2 # rest @ ''i.webp'') =
           (Num (max (min d1 3) 1), Num (max (min d2 8) 1),
            (let t = filter (\<lambda>c. c \<in> set ''wasdqe'') (toLowerCase rest) in if t = [] then ''e'' else t))"
proof -
  have d: "isDigit c1" "isDigit c2" using assms by (simp_all add: isDigit_def)
  have sl: "slice (''/'' @ c1 # c2 # rest @ ''i.webp'') 1 (length (''/'' @ c1 # c2 # rest @ ''i.webp'') - 6)
        = c1 # c2 # rest"
    by (simp add: slice_def)
  have low: "toLowerCase (c1 # c2 # rest) = c1 # c2 # toLowerCase rest"
    using d by (simp add: toLowerCase_digit)
  have nn: "\<not> isNaN_short (slice (c1 # c2 # toLowerCase rest) 0 2)"
    using d digit_not_ws by (simp add: slice_def isNaN_short_def trim_def)
  show ?thesis
    unfolding decode_inputs_def sl low Let_def
    using nn assms by (simp add: charToNumber_def)
qed

text \<open>
  Claim C8 says that the first two characters are taken as episode and map exactly when
  they form digits, with both values clamped into range, and that otherwise episode and
  map are 1.  The test of the source is \<open>!isNaN(inputs.slice(0, 2))\<close>, which also accepts
  a single digit and a digit next to a sign or a dot.  For the path \<open>/5i.webp\<close> the
  handler takes episode 3 and map \<open>NaN\<close> and uses the cache entry \<open>3NaNe\<close>; for
  \<open>/-5wi.webp\<close> the episode is \<open>NaN\<close>.
\<close>

theorem decode_single_digit:
  "static_route ''/srv'' ''/5i.webp'' = None
   \<and> decode_inputs ''/5i.webp'' = (Num 3, NaN, ''e'')
   \<and> cachePath ''/srv'' (decode_inputs ''/5i.webp'') = ''/srv/cache/3NaNe''
   \<and> decode_inputs ''/-5wi.webp'' = (NaN, Num 5, ''w'')"
  by (simp add: decode_inputs_def slice_def toLowerCase_def isNaN_short_def trim_def isWhiteSpace_def
      isDigit_def digit_value_def charToNumber_def static_route_def endsWith_def cachePath_def
      em_of_def digits_of.simps)

subsection \<open>The continuity check\<close>

lemma missing_save_answer:
  assumes route: "static_route (dirname E) path = None"
    and dec: "decode_inputs path = k"
    and save: "save_of k \<noteq> []"
    and miss: "outputPathWEBP (dirname E) k \<notin> files w"
    and nosave: "savePathDSG (dirname E) k \<notin> files w"
    and tmpd: "createTempDir (dirname E) (tmpNames (attempt E retry)) (mkdir_tmp (attempt E retry))
                 (w\<lparr>requestCount := Suc (requestCount w)\<rparr>) = Some (Inr (tmp, w1))"
  shows "handleRequest E path retry w =
           (Returns continuity_response, perform (Rm tmp) (perform (Mkdir tmp) (w\<lparr>requestCount := Suc (requestCount w)\<rparr>)))"
proof -
  from createTempDir_Some[OF tmpd] obtain n where
    tmp: "tmp = dirname E @ ''/tmp/'' @ n" and w1: "w1 = perform (Mkdir tmp) (w\<lparr>requestCount := Suc (requestCount w)\<rparr>)"
    by auto
  have ne: "savePathDSG (dirname E) k \<noteq> tmp"
    by (simp add: tmp savePathDSG_def)
  have "before_catch E path retry w = Done (Returns continuity_response) (perform (Rm tmp) w1)"
    using route dec save miss nosave tmpd ne
    by (simp add: before_catch_def Let_def fs_exists_def w1)
  then show ?thesis by (simp add: handleRequest.simps w1)
qed

text \<open>
  The continuity check comes after \<open>createTempDir\<close>, whose \<open>fs.mkdir\<close> is guarded by
  nothing: when it throws, the handler throws, whatever the request.  Without the
  directory \<open>tmp\<close> that is what happens to every request that misses the cache.
\<close>

lemma scratch_failure_raises:
  assumes "static_route (dirname E) path = None"
    and "outputPathWEBP (dirname E) (decode_inputs path) \<notin> files w"
    and "createTempDir (dirname E) (tmpNames (attempt E retry)) (mkdir_tmp (attempt E retry))
           (w\<lparr>requestCount := Suc (requestCount w)\<rparr>) = Some (Inl e)"
  shows "handleRequest E path retry w = (Throws e, w\<lparr>requestCount := Suc (requestCount w)\<rparr>)"
  using assms by (simp add: handleRequest.simps before_catch_def Let_def fs_exists_def)

lemma missing_tmp_raises:
  "handleRequest smooth_env ''/wwi.webp'' False bare_world
     = (Throws (JsError ''ENOENT''), bare_world\<lparr>requestCount := 1\<rparr>)"
proof -
  have "createTempDir (dirname smooth_env) (tmpNames (attempt smooth_env False))
          (mkdir_tmp (attempt smooth_env False)) (bare_world\<lparr>requestCount := Suc (requestCount bare_world)\<rparr>)
        = Some (Inl (JsError ''ENOENT''))"
    by (simp add: smooth_env_def smooth_def bare_world_def fs_exists_def fs_mkdir_def Let_def)
  from scratch_failure_raises[OF _ _ this] show ?thesis
    by (simp add: static_route_def smooth_env_def endsWith_def bare_world_def)
qed



subsection \<open>Transcoding\<close>

lemma and_then_None: "f s = (None, s') \<Longrightarrow> and_then f g s = g s'"
  by (simp add: and_then_def)

lemma try_block_at_transcode:
  assumes "and_then (forge_step a k tmp)
             (and_then (doom_step a k tmp)
                (if save_of k \<noteq> [] then concat_step a dir k tmp else adopt_step a dir k tmp)) s
           = (None, w1, l1)"
  shows "try_block a dir k tmp s =
     (case webp_step a dir k (w1, l1) of
        (Some e, w, l) \<Rightarrow> (Some e, w, l\<lparr>err2 := Some e\<rparr>)
      | (None, w, l) \<Rightarrow> promote_step a dir k tmp (w, l))"
proof -
  let ?v = "if save_of k \<noteq> [] then concat_step a dir k tmp else adopt_step a dir k tmp"
  obtain r0 w0 l0 where f: "forge_step a k tmp s = (r0, w0, l0)" by (metis prod_cases3)
  show ?thesis
  proof (cases r0)
    case (Some e)
    then show ?thesis using assms f by (simp add: and_then_def)
  next
    case None
    note r0 = None
    obtain r2 w2 l2 where d: "doom_step a k tmp (w0, l0) = (r2, w2, l2)" by (metis prod_cases3)
    show ?thesis
    proof (cases r2)
      case (Some e)
      then show ?thesis using assms f r0 d by (simp add: and_then_def)
    next
      case None
      then have v: "?v (w2, l2) = (None, w1, l1)"
        using assms f r0 d by (simp add: and_then_def)
      have "try_block a dir k tmp s = and_then (video_step a dir k tmp) (promote_step a dir k tmp) (w2, l2)"
        using f r0 d None by (simp add: try_block_def and_then_def)
      also have "\<dots> = (case webp_step a dir k (w1, l1) of
        (Some e, w, l) \<Rightarrow> (Some e, w, l\<lparr>err2 := Some e\<rparr>)
      | (None, w, l) \<Rightarrow> promote_step a dir k tmp (w, l))"
        using v by (simp add: and_then_def video_step_def split: prod.splits option.splits)
      finally show ?thesis .
    qed
  qed
qed

text \<open>
  A transcoder that succeeds overwrites what a rival may have written: the state is the
  same with and without the rival.
\<close>

lemma perform_Write_meanwhile:
  "perform (Write (outputPathWEBP dir k)) (meanwhile a dir k w) = perform (Write (outputPathWEBP dir k)) w"
  by (simp add: meanwhile_def perform_def)

lemma errors_log_meanwhile [simp]: "errors_log (meanwhile a dir k w) = errors_log w"
  and history_meanwhile [simp]: "history (meanwhile a dir k w) = history w"
  and requestCount_meanwhile [simp]: "requestCount (meanwhile a dir k w) = requestCount w"
  and renderCount_meanwhile [simp]: "renderCount (meanwhile a dir k w) = renderCount w"
  by (simp_all add: meanwhile_def)

text \<open>When the transcoder succeeds, the preview is written and promotion follows.\<close>

lemma transcode_ok:
  assumes "and_then (forge_step a k tmp)
             (and_then (doom_step a k tmp)
                (if save_of k \<noteq> [] then concat_step a dir k tmp else adopt_step a dir k tmp)) s
           = (None, w1, l1)"
    and "ffmpeg_webp a = None"
  shows "try_block a dir k tmp s = promote_step a dir k tmp (perform (Write (outputPathWEBP dir k)) w1, l1)"
  using try_block_at_transcode[OF assms(1)] assms(2)
  by (simp add: webp_step_def perform_Write_meanwhile)

subsection \<open>Failure handling\<close>

text \<open>
  An error thrown by the \<open>try\<close> block is logged; the second run answers with the error
  image and the first run calls the handler again; the \<open>finally\<close> block comes last.
\<close>

lemma thrown_is_handled:
  assumes "before_catch E path retry w = Tried (Some e) k tmp w1 l"
  shows "handleRequest E path retry w =
     finally_block (attempt E retry) (dirname E) tmp
       (if retry then (Returns (error_response (dirname E)), log_error (attempt E retry) retry l w1)
        else handleRequest E path True (log_error (attempt E retry) retry l w1))"
  using assms by (simp add: handleRequest.simps Let_def)

text \<open>
  A request that is not answered before the \<open>try\<close> block enters it with empty locals, in
  the state in which the scratch directory and the cache entry exist.
\<close>

lemma before_catch_enters_try:
  assumes route: "static_route (dirname E) path = None"
    and dec: "decode_inputs path = k"
    and miss: "outputPathWEBP (dirname E) k \<notin> files w"
    and tmpd: "createTempDir (dirname E) (tmpNames (attempt E retry)) (mkdir_tmp (attempt E retry))
                 (w\<lparr>requestCount := Suc (requestCount w)\<rparr>) = Some (Inr (tmp, w1))"
    and cont: "save_of k = [] \<or> savePathDSG (dirname E) k \<in> files w"
  shows "before_catch E path retry w =
     (case try_block (attempt E retry) (dirname E) k tmp
             (if cachePath (dirname E) k \<in> files w then w1
              else perform (Mkdir (cachePath (dirname E) k)) w1,
              \<lparr>err = None, err2 = None, stdout = []\<rparr>) of
        (thrown, w', l') \<Rightarrow> Tried thrown k tmp w' l')"
proof -
  obtain episode map' inputs where k: "k = (episode, map', inputs)" by (metis prod_cases3)
  from createTempDir_Some[OF tmpd] obtain n where
    tmp: "tmp = dirname E @ ''/tmp/'' @ n"
    and w1: "w1 = perform (Mkdir tmp) (w\<lparr>requestCount := Suc (requestCount w)\<rparr>)"
    by auto
  have p1: "cachePath (dirname E) k \<noteq> tmp"
    by (simp add: tmp cachePath_def k)
  have exB: "fs_exists w1 (cachePath (dirname E) k) \<longleftrightarrow> cachePath (dirname E) k \<in> files w"
    using p1 by (simp add: fs_exists_def w1)
  have contA: "\<not> (save_of k \<noteq> [] \<and> \<not> fs_exists w1 (savePathDSG (dirname E) k))"
    using cont by (auto simp: fs_exists_def w1)
  have missA: "\<not> fs_exists (w\<lparr>requestCount := Suc (requestCount w)\<rparr>) (outputPathWEBP (dirname E) k)"
    using miss by (simp add: fs_exists_def)
  show ?thesis
    unfolding before_catch_def Let_def route dec option.case
    using missA tmpd contA exB by (auto simp del: files_perform)
qed

subsection \<open>The race rule of the transcoder\<close>





text \<open>What the handler does after a transcoder that succeeds.\<close>

lemma transcode_success_continues:
  assumes route: "static_route (dirname E) path = None"
    and dec: "decode_inputs path = k"
    and miss: "outputPathWEBP (dirname E) k \<notin> files w"
    and tmpd: "createTempDir (dirname E) (tmpNames (attempt E retry)) (mkdir_tmp (attempt E retry))
                 (w\<lparr>requestCount := Suc (requestCount w)\<rparr>) = Some (Inr (tmp, w1))"
    and cont: "save_of k = [] \<or> savePathDSG (dirname E) k \<in> files w"
    and reach: "and_then (forge_step (attempt E retry) k tmp)
             (and_then (doom_step (attempt E retry) k tmp)
                (if save_of k \<noteq> [] then concat_step (attempt E retry) (dirname E) k tmp
                 else adopt_step (attempt E retry) (dirname E) k tmp))
             (if cachePath (dirname E) k \<in> files w then w1
              else perform (Mkdir (cachePath (dirname E) k)) w1,
              \<lparr>err = None, err2 = None, stdout = []\<rparr>)
           = (None, w2, l2)"
    and fin: "ffmpeg_webp (attempt E retry) = None"
  shows "handleRequest E path retry w =
     (case promote_step (attempt E retry) (dirname E) k tmp
             (perform (Write (outputPathWEBP (dirname E) k)) w2, l2) of
        (None, w3, l3) \<Rightarrow>
          (case finally_block (attempt E retry) (dirname E) tmp
                  (Returns (preview_response (dirname E) k), w3) of
             (Returns r, w4) \<Rightarrow> after_try (dirname E) k l3 w4
           | (out, w4) \<Rightarrow> (out, w4))
      | (Some e', w3, l3) \<Rightarrow>
          finally_block (attempt E retry) (dirname E) tmp
            (if retry
             then (Returns (error_response (dirname E)), log_error (attempt E retry) retry l3 w3)
             else handleRequest E path True (log_error (attempt E retry) retry l3 w3)))"
  unfolding handleRequest.simps[of E path retry w]
    before_catch_enters_try[OF route dec miss tmpd cont] transcode_ok[OF reach fin]
  by (simp add: Let_def split: prod.splits option.splits)











subsection \<open>Two failures in a row\<close>

text \<open>Nothing before the handler of the outer \<open>try\<close> touches the error log.\<close>

lemma forge_step_log: "forge_step a k tmp (w, l) = (r, w', l') \<Longrightarrow> errors_log w' = errors_log w"
  by (auto simp: forge_step_def split: prod.splits sum.splits option.splits)

lemma doom_step_log: "doom_step a k tmp (w, l) = (r, w', l') \<Longrightarrow> errors_log w' = errors_log w"
  by (auto simp: doom_step_def doom_files_def Let_def split: sum.splits jsError.splits)

lemma concat_step_log: "concat_step a dir k tmp (w, l) = (r, w', l') \<Longrightarrow> errors_log w' = errors_log w"
  by (auto simp: concat_step_def Let_def split: option.splits)

lemma fs_rename_log: "fs_rename fault src dst w = (r, w') \<Longrightarrow> errors_log w' = errors_log w"
  by (auto simp: fs_rename_def split: if_splits option.splits)

lemma adopt_step_log: "adopt_step a dir k tmp (w, l) = (r, w', l') \<Longrightarrow> errors_log w' = errors_log w"
  by (auto simp: adopt_step_def split: prod.splits dest: fs_rename_log)

lemma webp_step_log: "webp_step a dir k (w, l) = (r, w', l') \<Longrightarrow> errors_log w' = errors_log w"
  by (auto simp: webp_step_def Let_def split: option.splits jsError.splits if_splits)

lemma promote_step_log: "promote_step a dir k tmp (w, l) = (r, w', l') \<Longrightarrow> errors_log w' = errors_log w"
  by (auto simp: promote_step_def split: prod.splits dest: fs_rename_log)

lemma and_then_log:
  assumes f: "\<And>w l r w' l'. f (w, l) = (r, w', l') \<Longrightarrow> errors_log w' = errors_log w"
    and g: "\<And>w l r w' l'. g (w, l) = (r, w', l') \<Longrightarrow> errors_log w' = errors_log w"
    and "and_then f g (w, l) = (r, w', l')"
  shows "errors_log w' = errors_log w"
proof -
  obtain r1 w1 l1 where s: "f (w, l) = (r1, w1, l1)" by (metis prod_cases3)
  show ?thesis
  proof (cases r1)
    case None
    then have "g (w1, l1) = (r, w', l')" using assms(3) s by (simp add: and_then_def)
    then show ?thesis using g f[OF s] by metis
  next
    case (Some e)
    then have "w' = w1" using assms(3) s by (simp add: and_then_def)
    then show ?thesis using f[OF s] by simp
  qed
qed

lemma video_step_log: "video_step a dir k tmp (w, l) = (r, w', l') \<Longrightarrow> errors_log w' = errors_log w"
proof -
  assume v: "video_step a dir k tmp (w, l) = (r, w', l')"
  let ?f = "if save_of k \<noteq> [] then concat_step a dir k tmp else adopt_step a dir k tmp"
  obtain r1 w1 l1 where s: "and_then ?f (webp_step a dir k) (w, l) = (r1, w1, l1)" by (metis prod_cases3)
  have f: "\<And>w l r w' l'. ?f (w, l) = (r, w', l') \<Longrightarrow> errors_log w' = errors_log w"
    by (auto dest: concat_step_log adopt_step_log split: if_splits)
  have "errors_log w1 = errors_log w"
    using and_then_log[of ?f "webp_step a dir k", OF f webp_step_log s] .
  moreover have "w' = w1" using v s by (auto simp: video_step_def split: option.splits)
  ultimately show ?thesis by simp
qed

lemma try_block_log: "try_block a dir k tmp (w, l) = (r, w', l') \<Longrightarrow> errors_log w' = errors_log w"
  unfolding try_block_def
  by (erule and_then_log[rotated 2], erule forge_step_log,
      erule and_then_log[rotated 2], erule doom_step_log,
      erule and_then_log[rotated 2], erule video_step_log, erule promote_step_log)

lemma before_catch_log:
  assumes "before_catch E path retry w = Tried r k tmp w' l"
  shows "errors_log w' = errors_log w"
proof -
  let ?rc = "w\<lparr>requestCount := Suc (requestCount w)\<rparr>"
  from assms obtain w1 w0 where
    t: "createTempDir (dirname E) (tmpNames (attempt E retry)) (mkdir_tmp (attempt E retry)) ?rc = Some (Inr (tmp, w1))"
    and w0: "w0 = w1 \<or> w0 = perform (Mkdir (cachePath (dirname E) k)) w1"
    and tb: "try_block (attempt E retry) (dirname E) k tmp (w0, \<lparr>err = None, err2 = None, stdout = []\<rparr>) = (r, w', l)"
    by (auto simp: before_catch_def Let_def split: option.splits if_splits prod.splits sum.splits)
  from createTempDir_Some[OF t] have "errors_log w1 = errors_log w" by auto
  with w0 have "errors_log w0 = errors_log w" by auto
  with try_block_log[OF tb] show ?thesis by simp
qed

lemma finally_block_returns:
  assumes "clearOldCache (cleanup_disk a) (dir @ ''/cache'') = Inr s" "out \<noteq> Diverges"
  shows "\<exists>w'. finally_block a dir tmp (out, w) = (out, w') \<and> errors_log w' = errors_log w"
  using assms by (simp add: finally_block_def Let_def)

text \<open>
  Where \<open>clearOldCache\<close> returns in both \<open>finally\<close> blocks, the handler does what claim C3
  says: a failure of the first run is logged and followed by exactly one more run, and a
  failure of that run is logged too and answered with the error image.
\<close>

lemma second_failure_error_image:
  assumes first: "before_catch E path False w = Tried (Some e) k tmp w1 l1"
    and second: "before_catch E path True (log_error (attempt E False) False l1 w1) = Tried (Some e') k' tmp' w2 l2"
    and cl1: "clearOldCache (cleanup_disk (attempt E False)) (dirname E @ ''/cache'') = Inr s1"
    and cl2: "clearOldCache (cleanup_disk (attempt E True)) (dirname E @ ''/cache'') = Inr s2"
  shows "\<exists>w'. handleRequest E path False w = (Returns (error_response (dirname E)), w')
       \<and> errors_log w' = errors_log w @ [errstr (attempt E False) False l1, errstr (attempt E True) True l2]"
proof -
  let ?wl = "log_error (attempt E False) False l1 w1"
  let ?wl2 = "log_error (attempt E True) True l2 w2"
  have l1: "errors_log ?wl = errors_log w @ [errstr (attempt E False) False l1]"
    using before_catch_log[OF first] by (simp add: log_error_def)
  have l2: "errors_log ?wl2 = errors_log ?wl @ [errstr (attempt E True) True l2]"
    using before_catch_log[OF second] by (simp add: log_error_def)
  from finally_block_returns[OF cl2, of "Returns (error_response (dirname E))" tmp' ?wl2]
  obtain wa where a: "finally_block (attempt E True) (dirname E) tmp' (Returns (error_response (dirname E)), ?wl2)
                        = (Returns (error_response (dirname E)), wa)"
    and la: "errors_log wa = errors_log ?wl2" by auto
  have inner: "handleRequest E path True ?wl = (Returns (error_response (dirname E)), wa)"
    using thrown_is_handled[OF second] a by simp
  from finally_block_returns[OF cl1, of "Returns (error_response (dirname E))" tmp wa]
  obtain wb where b: "finally_block (attempt E False) (dirname E) tmp (Returns (error_response (dirname E)), wa)
                        = (Returns (error_response (dirname E)), wb)"
    and lb: "errors_log wb = errors_log wa" by auto
  have "handleRequest E path False w = (Returns (error_response (dirname E)), wb)"
    using thrown_is_handled[OF first] inner b by simp
  then show ?thesis using lb la l2 l1 by auto
qed

lemma forge_w: "forgeDemo ''w'' (Num 1) (Num 1) = Inr (lmp_layout ''w'' (Num 1) (Num 1))"
  by (rule forgeDemo_layout) simp

text \<open>
  Claim C3 says that a second failure is answered with the error image instead of raising.
  The \<open>finally\<close> block calls \<open>clearOldCache\<close>, which can raise (claim C4): when the demo
  cannot be written in either run and the cache directory cannot be listed, the handler
  raises the error of the listing in place of the answer.
\<close>

theorem double_failure_raises:
  "fst (handleRequest starved_env ''/wi.webp'' False fresh_world) = Throws (JsError ''EMFILE'')"
proof -
  have dec: "decode_inputs ''/wi.webp'' = (Num 1, Num 1, ''w'')"
    by (simp add: decode_inputs_def slice_def toLowerCase_def isNaN_short_def trim_def isWhiteSpace_def
      isDigit_def digit_value_def)
  have route: "static_route ''/srv'' ''/wi.webp'' = None"
    by (simp add: static_route_def endsWith_def)
  have clr: "clearOldCache readdir_throws_disk ''/srv/cache'' = Inl (JsError ''EMFILE'')"
    by (simp add: clearOldCache_def readdir_throws_disk_def CACHE_CLEAR_HIGH_THRESHOLD_def)
  show ?thesis
    by (simp add: handleRequest.simps before_catch_def starved_env_def starved_def smooth_def
        fresh_world_def dec route Let_def fs_exists_def outputPathWEBP_def cachePath_def em_of_def
        digits_of.simps save_of_def slice_def SAVE_THRESHOLD_def try_block_def and_then_def
        forge_step_def forge_w log_error_def finally_block_def clr under_def fs_mkdir_def)
qed

subsection \<open>The preview is written before the save game is promoted\<close>

lemma render_succeeds:
  assumes route: "static_route (dirname E) path = None"
    and dec: "decode_inputs path = k"
    and miss: "outputPathWEBP (dirname E) k \<notin> files w"
    and tmpd: "createTempDir (dirname E) (tmpNames (attempt E retry)) (mkdir_tmp (attempt E retry))
                 (w\<lparr>requestCount := Suc (requestCount w)\<rparr>) = Some (Inr (tmp, w1))"
    and cont: "save_of k = [] \<or> savePathDSG (dirname E) k \<in> files w"
    and ok: "write_demo (attempt E retry) = None"
            "doom (attempt E retry) = Inr out \<or> doom (attempt E retry) = Inl (ShellError out errout)"
            "doom_render (attempt E retry)" "doom_save (attempt E retry)"
            "write_concat (attempt E retry) = None" "ffmpeg_concat (attempt E retry) = None"
            "ffmpeg_trim (attempt E retry) = None" "rename_render (attempt E retry) = None"
            "ffmpeg_webp (attempt E retry) = None" "rename_save (attempt E retry) = None"
  shows "\<exists>l. before_catch E path retry w =
           Tried None k tmp
             (fold perform (render_ops (dirname E) k tmp w
                            @ [Rename (tmp @ ''/doomsav0.dsg'') (newSavePath (dirname E) k)])
                (w\<lparr>requestCount := Suc (requestCount w)\<rparr>)) l
         \<and> stdout l = out"
proof -
  obtain episode map' inputs where k: "k = (episode, map', inputs)" by (metis prod_cases3)
  from createTempDir_Some[OF tmpd] obtain n where
    tmp: "tmp = dirname E @ ''/tmp/'' @ n" and w1: "w1 = perform (Mkdir tmp) (w\<lparr>requestCount := Suc (requestCount w)\<rparr>)"
    by auto
  from decode_inputs_alphabet[OF dec[unfolded k]]
  have "set (drop (length inputs - SAVE_THRESHOLD) inputs) \<subseteq> set ''wasdqe''"
    by (meson set_drop_subset subset_trans)
  from forgeDemo_layout[OF this] obtain buffer where
    fd: "forgeDemo (drop (length inputs - SAVE_THRESHOLD) inputs) episode map' = Inr buffer"
    by blast
  let ?dir = "dirname E" and ?a = "attempt E retry"
  let ?rc = "w\<lparr>requestCount := Suc (requestCount w)\<rparr>"
  let ?l0 = "\<lparr>err = None, err2 = None, stdout = []\<rparr>"
  let ?render = "tmp @ ''/render.mp4''" and ?tmpsave = "tmp @ ''/doomsav0.dsg''"
  define wA where "wA = perform (Mkdir tmp) ?rc"
  define wB where "wB = (if cachePath ?dir k \<in> files w then wA else perform (Mkdir (cachePath ?dir k)) wA)"
  define wC where "wC = perform (Write (tmp @ ''/demo.lmp'')) wB"
  define wD where "wD = perform (Write ?tmpsave) (perform (Write ?render) wC)"
  define wE where "wE = (if save_of k = [] then perform (Rename ?render (outputPathMP4 ?dir k)) wD
     else perform (Write (outputPathMP4 ?dir k))
            (perform (Write (tmp @ ''/concat.mp4'')) (perform (Write (tmp @ ''/concat.txt'')) wD)))"
  define wF where "wF = perform (Write (outputPathWEBP ?dir k)) wE"
  define wG where "wG = perform (Rename ?tmpsave (newSavePath ?dir k)) wF"
  define l1 where "l1 = (case doom ?a of Inr x \<Rightarrow> ?l0\<lparr>stdout := x\<rparr>
                          | Inl e \<Rightarrow> ?l0\<lparr>err := Some e, stdout := out\<rparr>)"
  have p1: "cachePath ?dir k \<noteq> tmp"
    by (simp add: tmp cachePath_def k)
  have p2: "\<not> under ?render ?tmpsave"
    by (simp add: under_def)
  have p3: "savePathDSG ?dir k \<noteq> tmp"
    by (simp add: tmp savePathDSG_def)
  have exB: "fs_exists wA (cachePath ?dir k) \<longleftrightarrow> cachePath ?dir k \<in> files w"
    using p1 by (simp add: fs_exists_def wA_def)
  have contA: "\<not> (save_of k \<noteq> [] \<and> \<not> fs_exists wA (savePathDSG ?dir k))"
    using cont by (auto simp: fs_exists_def wA_def)
  have s1: "forge_step ?a k tmp (wB, ?l0) = (None, wC, ?l0)"
    using fd ok(1) by (simp add: forge_step_def k wC_def)
  have s2: "doom_step ?a k tmp (wC, ?l0) = (None, wD, l1)"
    using ok(2,3,4) by (auto simp: doom_step_def doom_files_def wD_def l1_def)
  have out: "stdout l1 = out"
    using ok(2) by (auto simp: l1_def)
  have s3a: "(if save_of k \<noteq> [] then concat_step ?a ?dir k tmp else adopt_step ?a ?dir k tmp) (wD, l1)
               = (None, wE, l1)"
    using ok(5,6,7,8)
    by (simp add: concat_step_def adopt_step_def fs_rename_def fs_exists_def wE_def wD_def Let_def)
  have s3b: "webp_step ?a ?dir k (wE, l1) = (None, wF, l1)"
    using ok(9) by (simp add: webp_step_def wF_def perform_Write_meanwhile)
  have s3: "video_step ?a ?dir k tmp (wD, l1) = (None, wF, l1)"
    using s3a s3b by (simp add: video_step_def and_then_def)
  have inE: "?tmpsave \<in> files wE"
    using p2 by (simp add: wE_def wD_def)
  have s4: "promote_step ?a ?dir k tmp (wF, l1) = (None, wG, l1)"
    using ok(10) inE by (simp add: promote_step_def fs_rename_def fs_exists_def wF_def wG_def)
  have tb: "try_block ?a ?dir k tmp (wB, ?l0) = (None, wG, l1)"
    using s1 s2 s3 s4 by (simp add: try_block_def and_then_def)
  have wG: "wG = fold perform (render_ops ?dir k tmp w @ [Rename ?tmpsave (newSavePath ?dir k)]) ?rc"
    by (simp add: render_ops_def wG_def wF_def wE_def wD_def wC_def wB_def wA_def)
  have "before_catch E path retry w = Tried None k tmp wG l1"
    using route dec miss tmpd contA exB tb
    by (auto simp: before_catch_def Let_def fs_exists_def w1 wA_def[symmetric] wB_def split: if_splits)
  then show ?thesis using out wG by auto
qed

lemma files_preview_written:
  "files (preview_written dir k tmp w) \<subseteq>
     files w \<union> {tmp, cachePath dir k, tmp @ ''/demo.lmp'', tmp @ ''/render.mp4'', tmp @ ''/doomsav0.dsg'',
                 tmp @ ''/concat.txt'', tmp @ ''/concat.mp4'', outputPathMP4 dir k, outputPathWEBP dir k}"
  by (auto simp: preview_written_def render_ops_def)

lemma after_try_history:
  "\<exists>w' post. after_try dir k l w = (Returns (preview_response dir k), w') \<and> history w' = history w @ post"
  by (simp add: after_try_def Let_def)

text \<open>
  Claim C10.  Take a render of key \<open>K = (episode, map, inputs)\<close> that misses the cache
  and in which every step succeeds.  The handler returns the preview, and the operations it
  performed are those of \<open>render_ops\<close>, the last of them the writing of \<open>K\<close>'s preview,
  then the renaming of the save game into \<open>K\<close>'s entry, then the rest.  In the state
  \<open>preview_written\<close>, reached when the operations of \<open>render_ops\<close> have been performed,
  \<open>K\<close>'s preview exists and (if it did not exist before) its save game does not; a
  request in that state for a key that extends \<open>K\<close> by \<open>SAVE_THRESHOLD\<close> tokens, not
  cached itself, is answered with status 500 by the continuity check.
\<close>

theorem preview_before_snapshot:
  assumes route: "static_route (dirname E) path = None"
    and dec: "decode_inputs path = (episode, map', inputs)"
    and miss: "outputPathWEBP (dirname E) (episode, map', inputs) \<notin> files w"
    and nosnap: "newSavePath (dirname E) (episode, map', inputs) \<notin> files w"
    and tmpd: "createTempDir (dirname E) (tmpNames (attempt E retry)) (mkdir_tmp (attempt E retry))
                 (w\<lparr>requestCount := Suc (requestCount w)\<rparr>) = Some (Inr (tmp, w1))"
    and cont: "save_of (episode, map', inputs) = [] \<or> savePathDSG (dirname E) (episode, map', inputs) \<in> files w"
    and ok: "write_demo (attempt E retry) = None"
            "doom (attempt E retry) = Inr out \<or> doom (attempt E retry) = Inl (ShellError out errout)"
            "doom_render (attempt E retry)" "doom_save (attempt E retry)"
            "write_concat (attempt E retry) = None" "ffmpeg_concat (attempt E retry) = None"
            "ffmpeg_trim (attempt E retry) = None" "rename_render (attempt E retry) = None"
            "ffmpeg_webp (attempt E retry) = None" "rename_save (attempt E retry) = None"
    and cl: "clearOldCache (cleanup_disk (attempt E retry)) (dirname E @ ''/cache'') = Inr s"
    and dir': "dirname E' = dirname E"
    and route': "static_route (dirname E') path' = None"
    and dec': "decode_inputs path' = (episode, map', inputs @ ts)"
    and ts: "length ts = SAVE_THRESHOLD"
    and miss': "outputPathWEBP (dirname E) (episode, map', inputs @ ts)
                  \<notin> files (preview_written (dirname E) (episode, map', inputs) tmp w)"
    and tmpd': "createTempDir (dirname E') (tmpNames (attempt E' retry')) (mkdir_tmp (attempt E' retry'))
                 ((preview_written (dirname E) (episode, map', inputs) tmp w)
                    \<lparr>requestCount := Suc (requestCount (preview_written (dirname E) (episode, map', inputs) tmp w))\<rparr>)
               = Some (Inr (tmp', w1'))"
  shows "\<exists>w' post.
       handleRequest E path retry w = (Returns (preview_response (dirname E) (episode, map', inputs)), w')
     \<and> history w' = history w @ render_ops (dirname E) (episode, map', inputs) tmp w
                       @ Rename (tmp @ ''/doomsav0.dsg'') (newSavePath (dirname E) (episode, map', inputs)) # post
     \<and> last (render_ops (dirname E) (episode, map', inputs) tmp w)
          = Write (outputPathWEBP (dirname E) (episode, map', inputs))
     \<and> outputPathWEBP (dirname E) (episode, map', inputs)
          \<in> files (preview_written (dirname E) (episode, map', inputs) tmp w)
     \<and> newSavePath (dirname E) (episode, map', inputs)
          \<notin> files (preview_written (dirname E) (episode, map', inputs) tmp w)
     \<and> fst (handleRequest E' path' retry' (preview_written (dirname E) (episode, map', inputs) tmp w))
          = Returns \<lparr>body = Text [], status = 500, headers = NOCACHE_HEADERS\<rparr>"
proof -
  let ?dir = "dirname E" and ?k = "(episode, map', inputs)" and ?k' = "(episode, map', inputs @ ts)"
  let ?mid = "preview_written ?dir ?k tmp w"
  let ?ren = "Rename (tmp @ ''/doomsav0.dsg'') (newSavePath ?dir ?k)"
  let ?rc = "w\<lparr>requestCount := Suc (requestCount w)\<rparr>"
  from createTempDir_Some[OF tmpd] obtain n where tmp: "tmp = ?dir @ ''/tmp/'' @ n"
    by auto
  from render_succeeds[OF route dec miss tmpd cont ok] obtain l where
    bc: "before_catch E path retry w = Tried None ?k tmp (fold perform (render_ops ?dir ?k tmp w @ [?ren]) ?rc) l"
    by blast
  let ?wG = "fold perform (render_ops ?dir ?k tmp w @ [?ren]) ?rc"
  let ?wH = "fold perform (map Rm (removed s)) (perform (Rm tmp) ?wG)"
  have fin: "finally_block (attempt E retry) ?dir tmp (Returns (preview_response ?dir ?k), ?wG)
               = (Returns (preview_response ?dir ?k), ?wH)"
    using cl by (simp add: finally_block_def Let_def)
  from after_try_history[of ?dir ?k l ?wH] obtain w' post where
    at: "after_try ?dir ?k l ?wH = (Returns (preview_response ?dir ?k), w')"
    and hist: "history w' = history ?wH @ post"
    by blast
  have run: "handleRequest E path retry w = (Returns (preview_response ?dir ?k), w')"
    using bc fin at by (simp add: handleRequest.simps)
  have hist': "history w' = history w @ render_ops ?dir ?k tmp w @ ?ren # (Rm tmp # map Rm (removed s) @ post)"
    using hist by simp
  have lst: "last (render_ops ?dir ?k tmp w) = Write (outputPathWEBP ?dir ?k)"
    by (simp add: render_ops_def)
  have inmid: "outputPathWEBP ?dir ?k \<in> files ?mid"
    by (simp add: preview_written_def render_ops_def)
  have notin: "newSavePath ?dir ?k \<notin> files ?mid"
  proof
    assume "newSavePath ?dir ?k \<in> files ?mid"
    with files_preview_written[of ?dir ?k tmp w] nosnap
    have "newSavePath ?dir ?k \<in> {tmp, cachePath ?dir ?k, tmp @ ''/demo.lmp'', tmp @ ''/render.mp4'',
              tmp @ ''/doomsav0.dsg'', tmp @ ''/concat.txt'', tmp @ ''/concat.mp4'',
              outputPathMP4 ?dir ?k, outputPathWEBP ?dir ?k}"
      by blast
    then show False
      by (simp add: newSavePath_def outputPathMP4_def outputPathWEBP_def cachePath_def tmp)
  qed
  from decode_inputs_alphabet[OF dec] have ne: "inputs \<noteq> []" by simp
  have sv: "save_of ?k' = inputs"
    using ts by (simp add: save_of_def slice_def)
  have em: "em_of ?k' = em_of ?k" by (simp add: em_of_def)
  have same: "savePathDSG ?dir ?k' = newSavePath ?dir ?k"
    by (simp add: savePathDSG_def newSavePath_def cachePath_def sv em)
  have second: "handleRequest E' path' retry' ?mid =
           (Returns continuity_response,
            perform (Rm tmp') (perform (Mkdir tmp') (?mid\<lparr>requestCount := Suc (requestCount ?mid)\<rparr>)))"
    using route' dec' miss' notin tmpd' ne
    apply (intro missing_save_answer)
    apply (simp_all add: sv dir')
    apply (simp add: same)
    done
  show ?thesis
    using run hist' lst inmid notin second
    by (intro exI[of _ w'] exI[of _ "Rm tmp # map Rm (removed s) @ post"])
       (simp add: continuity_response_def)
qed

theorem preview_before_snapshot_witness:
  "decode_inputs ''/wi.webp'' = (Num 1, Num 1, ''w'')
   \<and> decode_inputs ''/wwi.webp'' = (Num 1, Num 1, ''w'' @ ''w'')
   \<and> (\<exists>w' post.
         handleRequest smooth_env ''/wi.webp'' False fresh_world
           = (Returns (preview_response ''/srv'' (Num 1, Num 1, ''w'')), w')
       \<and> history w' = [Mkdir ''/srv/tmp/t1'', Mkdir ''/srv/cache/11w'', Write ''/srv/tmp/t1/demo.lmp'',
                         Write ''/srv/tmp/t1/render.mp4'', Write ''/srv/tmp/t1/doomsav0.dsg'',
                         Rename ''/srv/tmp/t1/render.mp4'' ''/srv/cache/11w/output.mp4'',
                         Write ''/srv/cache/11w/output.webp'',
                         Rename ''/srv/tmp/t1/doomsav0.dsg'' ''/srv/cache/11w/doomsav0.dsg''] @ post)
   \<and> ''/srv/cache/11w/output.webp''
         \<in> files (preview_written ''/srv'' (Num 1, Num 1, ''w'') ''/srv/tmp/t1'' fresh_world)
   \<and> ''/srv/cache/11w/doomsav0.dsg''
         \<notin> files (preview_written ''/srv'' (Num 1, Num 1, ''w'') ''/srv/tmp/t1'' fresh_world)
   \<and> fst (handleRequest smooth_env ''/wwi.webp'' False
             (preview_written ''/srv'' (Num 1, Num 1, ''w'') ''/srv/tmp/t1'' fresh_world))
         = Returns \<lparr>body = Text [], status = 500, headers = NOCACHE_HEADERS\<rparr>"
proof -
  let ?k = "(Num 1, Num 1, ''w'')"
  let ?mid = "preview_written (dirname smooth_env) ?k ''/srv/tmp/t1'' fresh_world"
  note decs = decode_inputs_def slice_def toLowerCase_def isNaN_short_def trim_def isWhiteSpace_def
      isDigit_def digit_value_def
  note paths = outputPathWEBP_def outputPathMP4_def newSavePath_def savePathDSG_def cachePath_def
      em_of_def digits_of.simps
  have d: "dirname smooth_env = ''/srv''" and a: "attempt smooth_env r = smooth" for r
    by (simp_all add: smooth_env_def)
  have route: "static_route (dirname smooth_env) ''/wi.webp'' = None"
    by (simp add: d static_route_def endsWith_def)
  have dec: "decode_inputs ''/wi.webp'' = ?k" by (simp add: decs)
  have miss: "outputPathWEBP (dirname smooth_env) ?k \<notin> files fresh_world"
    and nosnap: "newSavePath (dirname smooth_env) ?k \<notin> files fresh_world"
    by (simp_all add: fresh_world_def d outputPathWEBP_def newSavePath_def cachePath_def)
  have tmpd: "createTempDir (dirname smooth_env) (tmpNames (attempt smooth_env False)) (mkdir_tmp (attempt smooth_env False))
                 (fresh_world\<lparr>requestCount := Suc (requestCount fresh_world)\<rparr>)
              = Some (Inr (''/srv/tmp/t1'', perform (Mkdir ''/srv/tmp/t1'')
                        (fresh_world\<lparr>requestCount := Suc (requestCount fresh_world)\<rparr>)))"
    by (simp add: d a smooth_def fresh_world_def fs_exists_def fs_mkdir_def Let_def)
  have cont: "save_of ?k = [] \<or> savePathDSG (dirname smooth_env) ?k \<in> files fresh_world"
    by (simp add: save_of_def slice_def SAVE_THRESHOLD_def)
  have ok: "write_demo (attempt smooth_env False) = None"
      "doom (attempt smooth_env False) = Inr ''ok'' \<or> doom (attempt smooth_env False) = Inl (ShellError ''ok'' [])"
      "doom_render (attempt smooth_env False)" "doom_save (attempt smooth_env False)"
      "write_concat (attempt smooth_env False) = None" "ffmpeg_concat (attempt smooth_env False) = None"
      "ffmpeg_trim (attempt smooth_env False) = None" "rename_render (attempt smooth_env False) = None"
      "ffmpeg_webp (attempt smooth_env False) = None" "rename_save (attempt smooth_env False) = None"
    by (simp_all add: a smooth_def)
  have cl: "clearOldCache (cleanup_disk (attempt smooth_env False)) (dirname smooth_env @ ''/cache'')
              = Inr \<lparr>probes = 1, free = 5 * 1024 * 1024 * 1024, rm_log = []\<rparr>"
    by (simp add: a smooth_def clearOldCache_def roomy_disk_def CACHE_CLEAR_HIGH_THRESHOLD_def)
  have route': "static_route (dirname smooth_env) ''/wwi.webp'' = None"
    by (simp add: d static_route_def endsWith_def)
  have dec': "decode_inputs ''/wwi.webp'' = (Num 1, Num 1, ''w'' @ ''w'')" by (simp add: decs)
  have ts: "length ''w'' = SAVE_THRESHOLD" by (simp add: SAVE_THRESHOLD_def)
  have ops: "render_ops ''/srv'' ?k ''/srv/tmp/t1'' fresh_world
      = [Mkdir ''/srv/tmp/t1'', Mkdir ''/srv/cache/11w'', Write ''/srv/tmp/t1/demo.lmp'',
         Write ''/srv/tmp/t1/render.mp4'', Write ''/srv/tmp/t1/doomsav0.dsg'',
         Rename ''/srv/tmp/t1/render.mp4'' ''/srv/cache/11w/output.mp4'',
         Write ''/srv/cache/11w/output.webp'']"
    by (simp add: render_ops_def paths fresh_world_def save_of_def slice_def SAVE_THRESHOLD_def)
  have t0: "''/srv/tmp'' \<in> files ?mid"
    unfolding d preview_written_def ops by (simp add: fresh_world_def under_def)
  have t1: "''/srv/tmp/t1'' \<in> files ?mid"
    unfolding d preview_written_def ops by (simp add: fresh_world_def under_def)
  have t2: "''/srv/tmp/t2'' \<notin> files ?mid"
    unfolding d preview_written_def ops by (simp add: fresh_world_def under_def)
  have miss': "outputPathWEBP (dirname smooth_env) (Num 1, Num 1, ''w'' @ ''w'') \<notin> files ?mid"
    unfolding d preview_written_def ops by (simp add: fresh_world_def under_def paths)
  have tmpd': "createTempDir (dirname smooth_env) (tmpNames (attempt smooth_env False)) (mkdir_tmp (attempt smooth_env False))
                 (?mid\<lparr>requestCount := Suc (requestCount ?mid)\<rparr>)
               = Some (Inr (''/srv/tmp/t2'', perform (Mkdir ''/srv/tmp/t2'')
                        (?mid\<lparr>requestCount := Suc (requestCount ?mid)\<rparr>)))"
    using t0 t1 t2 by (simp add: d a smooth_def fs_exists_def fs_mkdir_def Let_def)
  from preview_before_snapshot[OF route dec miss nosnap tmpd cont ok cl refl route' dec' ts
        miss' tmpd']
  obtain w' post where
    r: "handleRequest smooth_env ''/wi.webp'' False fresh_world
           = (Returns (preview_response (dirname smooth_env) ?k), w')"
       "history w' = history fresh_world @ render_ops (dirname smooth_env) ?k ''/srv/tmp/t1'' fresh_world
           @ Rename (''/srv/tmp/t1'' @ ''/doomsav0.dsg'') (newSavePath (dirname smooth_env) ?k) # post"
       "outputPathWEBP (dirname smooth_env) ?k \<in> files (preview_written (dirname smooth_env) ?k ''/srv/tmp/t1'' fresh_world)"
       "newSavePath (dirname smooth_env) ?k \<notin> files (preview_written (dirname smooth_env) ?k ''/srv/tmp/t1'' fresh_world)"
       "fst (handleRequest smooth_env ''/wwi.webp'' False (preview_written (dirname smooth_env) ?k ''/srv/tmp/t1'' fresh_world))
          = Returns \<lparr>body = Text [], status = 500, headers = NOCACHE_HEADERS\<rparr>"
    by blast
  have A: "\<exists>w' post.
         handleRequest smooth_env ''/wi.webp'' False fresh_world
           = (Returns (preview_response ''/srv'' ?k), w')
       \<and> history w' = [Mkdir ''/srv/tmp/t1'', Mkdir ''/srv/cache/11w'', Write ''/srv/tmp/t1/demo.lmp'',
                         Write ''/srv/tmp/t1/render.mp4'', Write ''/srv/tmp/t1/doomsav0.dsg'',
                         Rename ''/srv/tmp/t1/render.mp4'' ''/srv/cache/11w/output.mp4'',
                         Write ''/srv/cache/11w/output.webp'',
                         Rename ''/srv/tmp/t1/doomsav0.dsg'' ''/srv/cache/11w/doomsav0.dsg''] @ post"
    using r(1,2) unfolding d ops by (intro exI[of _ w'] exI[of _ post]) (simp add: paths fresh_world_def)
  show ?thesis
    using dec dec' A r(3,4,5) unfolding d by (simp add: paths)
qed

end
